theory Spec2Isabelle
  imports Main "HOL-Library.AList" "HOL-Library.Sublist"
begin

section \<open>Values of the host language\<close>

text \<open>
  The store handles values of the host language dynamically: what the deserializer
  returns is cast, unchecked, to a payload, and the code then tests it for truthiness and
  reads its properties. The values are therefore modelled as they are at run time.
  Numbers are the integers (the timestamps and whole-second TTLs the store computes with);
  rounding of floating-point numbers is outside the model. A string is a list of bytes. An
  object is the list of its own properties, with distinct names, in the order they were
  created (the runtime lists integer-like names first; the store reads properties by name
  only).
\<close>

datatype jsval =
    JUndefined
  | JNull
  | JBool bool
  | JNum int
  | JStr string
  | JArr "jsval list"
  | JObj "(string \<times> jsval) list"

datatype error = SyntaxError | Thrown string

text \<open>Truthiness, as tested by \<^verbatim>\<open>!x\<close> and \<^verbatim>\<open>x && y\<close>.\<close>

fun truthy :: "jsval \<Rightarrow> bool" where
  "truthy JUndefined = False"
| "truthy JNull = False"
| "truthy (JBool b) = b"
| "truthy (JNum n) = (n \<noteq> 0)"
| "truthy (JStr s) = (s \<noteq> [])"
| "truthy (JArr xs) = True"
| "truthy (JObj kvs) = True"

text \<open>
  Reading a property \<^verbatim>\<open>x.name\<close> of a value that is neither null nor undefined, for the
  two names the store reads (\<^verbatim>\<open>value\<close> and \<^verbatim>\<open>expiresAt\<close>): an object gives its own
  property, and a primitive or an array has no such property and gives undefined.
\<close>

fun js_get :: "jsval \<Rightarrow> string \<Rightarrow> jsval" where
  "js_get (JObj kvs) name = (case map_of kvs name of Some v \<Rightarrow> v | None \<Rightarrow> JUndefined)"
| "js_get _ name = JUndefined"

text \<open>
  The comparison \<^verbatim>\<open>x <= n\<close> against a number. A number compares numerically, a boolean
  and null convert to a number first, and undefined converts to NaN, which compares false.
  A string, an array or an object is converted by the runtime's string-to-number
  conversion, which is not modelled: its outcome is the parameter \<open>conv\<close>.
\<close>

fun js_le :: "(jsval \<Rightarrow> int \<Rightarrow> bool) \<Rightarrow> jsval \<Rightarrow> int \<Rightarrow> bool" where
  "js_le conv (JNum m) n = (m \<le> n)"
| "js_le conv (JBool b) n = ((if b then 1 else 0) \<le> n)"
| "js_le conv JNull n = (0 \<le> n)"
| "js_le conv JUndefined n = False"
| "js_le conv x n = conv x n"

section \<open>The default codec\<close>

text \<open>
  A store serializes with \<^verbatim>\<open>options.serialize ?? JSON.stringify\<close> and deserializes with
  \<^verbatim>\<open>options.deserialize ?? JSON.parse\<close>. The two defaults belong to the runtime, not to
  the repository; they are modelled here on the values above. The printer writes what
  \<^verbatim>\<open>JSON.stringify\<close> writes without indentation: an undefined array element as
  \<^verbatim>\<open>null\<close>, no property whose value is undefined, control characters escaped. The
  parser accepts the JSON grammar with integer literals; a literal with a fraction or an
  exponent denotes a number outside the values modelled and is not accepted, and no
  statement below applies the parser to such a text. A string is a list of bytes, so an
  escape \<^verbatim>\<open>\u\<close> above \<^verbatim>\<open>00ff\<close> is not accepted either.
\<close>

subsection \<open>Printing\<close>

definition digit_char :: "nat \<Rightarrow> char" where
  "digit_char d = char_of (48 + d)"

fun show_nat :: "nat \<Rightarrow> string" where
  "show_nat n = (if n < 10 then [digit_char n] else show_nat (n div 10) @ [digit_char (n mod 10)])"

declare show_nat.simps [simp del]

definition show_int :: "int \<Rightarrow> string" where
  "show_int i = (if i < 0 then CHR ''-'' # show_nat (nat (- i)) else show_nat (nat i))"

definition hex_char :: "nat \<Rightarrow> char" where
  "hex_char d = (if d < 10 then char_of (48 + d) else char_of (87 + d))"

definition escape_char :: "char \<Rightarrow> string" where
  "escape_char c =
     (if c = CHR 0x22 then [CHR 0x5C, CHR 0x22]
      else if c = CHR 0x5C then [CHR 0x5C, CHR 0x5C]
      else if c = CHR 0x08 then [CHR 0x5C, CHR ''b'']
      else if c = CHR 0x0C then [CHR 0x5C, CHR ''f'']
      else if c = CHR 0x0A then [CHR 0x5C, CHR ''n'']
      else if c = CHR 0x0D then [CHR 0x5C, CHR ''r'']
      else if c = CHR 0x09 then [CHR 0x5C, CHR ''t'']
      else if (of_char c :: nat) < 32 then
        [CHR 0x5C, CHR ''u'', CHR ''0'', CHR ''0'',
         hex_char ((of_char c :: nat) div 16), hex_char ((of_char c :: nat) mod 16)]
      else [c])"

definition quote :: "string \<Rightarrow> string" where
  "quote s = CHR 0x22 # concat (map escape_char s) @ [CHR 0x22]"

fun join_commas :: "string list \<Rightarrow> string" where
  "join_commas [] = []"
| "join_commas [x] = x"
| "join_commas (x # y # ys) = x @ CHR '','' # join_commas (y # ys)"

fun json_text :: "jsval \<Rightarrow> string"
  and json_elems :: "jsval list \<Rightarrow> string list"
  and json_members :: "(string \<times> jsval) list \<Rightarrow> string list" where
  "json_text JUndefined = ''null''"
| "json_text JNull = ''null''"
| "json_text (JBool b) = (if b then ''true'' else ''false'')"
| "json_text (JNum n) = show_int n"
| "json_text (JStr s) = quote s"
| "json_text (JArr xs) = CHR ''['' # join_commas (json_elems xs) @ '']''"
| "json_text (JObj kvs) = CHR ''{'' # join_commas (json_members kvs) @ ''}''"
| "json_elems [] = []"
| "json_elems (x # xs) = json_text x # json_elems xs"
| "json_members [] = []"
| "json_members (kv # kvs) =
     (if snd kv = JUndefined then json_members kvs
      else (quote (fst kv) @ CHR '':'' # json_text (snd kv)) # json_members kvs)"

text \<open>
  At top level \<^verbatim>\<open>JSON.stringify(undefined)\<close> returns undefined, not a string; a backend
  would keep that as the text \<^verbatim>\<open>undefined\<close>. The store never gets there: \<^verbatim>\<open>encode\<close>
  always serializes an object.
\<close>

definition JSON_stringify :: "jsval \<Rightarrow> error + string" where
  "JSON_stringify v = (if v = JUndefined then Inr ''undefined'' else Inr (json_text v))"

subsection \<open>Parsing\<close>

definition is_ws :: "char \<Rightarrow> bool" where
  "is_ws c = (c = CHR 0x20 \<or> c = CHR 0x09 \<or> c = CHR 0x0A \<or> c = CHR 0x0D)"

definition skip_ws :: "string \<Rightarrow> string" where
  "skip_ws s = dropWhile is_ws s"

definition is_digit :: "char \<Rightarrow> bool" where
  "is_digit c = (48 \<le> (of_char c :: nat) \<and> (of_char c :: nat) \<le> 57)"

definition digits_val :: "string \<Rightarrow> nat" where
  "digits_val ds = foldl (\<lambda>a c. 10 * a + ((of_char c :: nat) - 48)) 0 ds"

definition hex_val :: "char \<Rightarrow> nat option" where
  "hex_val c =
     (let n = (of_char c :: nat) in
      if 48 \<le> n \<and> n \<le> 57 then Some (n - 48)
      else if 97 \<le> n \<and> n \<le> 102 then Some (n - 87)
      else if 65 \<le> n \<and> n \<le> 70 then Some (n - 55)
      else None)"

definition hex4 :: "char \<Rightarrow> char \<Rightarrow> char \<Rightarrow> char \<Rightarrow> char option" where
  "hex4 a b c d =
     (case (hex_val a, hex_val b, hex_val c, hex_val d) of
        (Some w, Some x, Some y, Some z) \<Rightarrow>
          (if w = 0 \<and> x = 0 then Some (char_of (16 * y + z)) else None)
      | _ \<Rightarrow> None)"

definition unescape :: "char \<Rightarrow> char option" where
  "unescape e =
     (if e = CHR 0x22 then Some (CHR 0x22)
      else if e = CHR 0x5C then Some (CHR 0x5C)
      else if e = CHR ''/'' then Some (CHR ''/'')
      else if e = CHR ''b'' then Some (CHR 0x08)
      else if e = CHR ''f'' then Some (CHR 0x0C)
      else if e = CHR ''n'' then Some (CHR 0x0A)
      else if e = CHR ''r'' then Some (CHR 0x0D)
      else if e = CHR ''t'' then Some (CHR 0x09)
      else None)"

fun parse_chars :: "string \<Rightarrow> (string \<times> string) option" where
  "parse_chars [] = None"
| "parse_chars (c # cs) =
     (if c = CHR 0x22 then Some ([], cs)
      else if c = CHR 0x5C then
        (case cs of
           [] \<Rightarrow> None
         | e # cs1 \<Rightarrow>
             if e = CHR ''u'' then
               (case cs1 of
                  h1 # h2 # h3 # h4 # cs2 \<Rightarrow>
                    (case hex4 h1 h2 h3 h4 of
                       None \<Rightarrow> None
                     | Some ch \<Rightarrow> map_option (apfst ((#) ch)) (parse_chars cs2))
                | _ \<Rightarrow> None)
             else
               (case unescape e of
                  None \<Rightarrow> None
                | Some ch \<Rightarrow> map_option (apfst ((#) ch)) (parse_chars cs1)))
      else if (of_char c :: nat) < 32 then None
      else map_option (apfst ((#) c)) (parse_chars cs))"

definition parse_number :: "string \<Rightarrow> (jsval \<times> string) option" where
  "parse_number s =
     (let neg = (s \<noteq> [] \<and> hd s = CHR ''-'');
          s1 = (if neg then tl s else s);
          ds = takeWhile is_digit s1;
          rest = dropWhile is_digit s1
      in if ds = [] then None
         else if hd ds = CHR ''0'' \<and> tl ds \<noteq> [] then None
         else if rest \<noteq> [] \<and> (hd rest = CHR ''.'' \<or> hd rest = CHR ''e'' \<or> hd rest = CHR ''E'')
           then None
         else Some (JNum (if neg then - int (digits_val ds) else int (digits_val ds)), rest))"

definition strip_prefix :: "string \<Rightarrow> string \<Rightarrow> string option" where
  "strip_prefix p s = (if take (length p) s = p then Some (drop (length p) s) else None)"

text \<open>
  The properties of a parsed object: a repeated name keeps its first position and takes
  the last value.
\<close>

definition build_object :: "(string \<times> jsval) list \<Rightarrow> (string \<times> jsval) list" where
  "build_object ms = foldl (\<lambda>acc kv. AList.update (fst kv) (snd kv) acc) [] ms"

text \<open>
  The three parsers below call each other on ever shorter texts. \<^verbatim>\<open>parse_elements\<close> and
  \<^verbatim>\<open>parse_members\<close> continue on what an earlier call left over, and check that it is
  shorter than the text they started from; the check never fails
  (\<open>parse_elements_unguarded\<close>, \<open>parse_members_unguarded\<close>).
\<close>

text \<open>A value that is neither an array nor an object, from its first character on.\<close>

definition parse_leaf :: "char \<Rightarrow> string \<Rightarrow> (jsval \<times> string) option" where
  "parse_leaf c r =
     (if c = CHR 0x22 then map_option (apfst JStr) (parse_chars r)
      else if c = CHR ''n'' then map_option (Pair JNull) (strip_prefix ''ull'' r)
      else if c = CHR ''t'' then map_option (Pair (JBool True)) (strip_prefix ''rue'' r)
      else if c = CHR ''f'' then map_option (Pair (JBool False)) (strip_prefix ''alse'' r)
      else parse_number (c # r))"

text \<open>The name of a member and the colon after it.\<close>

definition parse_key :: "string \<Rightarrow> (string \<times> string) option" where
  "parse_key s =
     (case skip_ws s of
        [] \<Rightarrow> None
      | q # r \<Rightarrow>
          if q \<noteq> CHR 0x22 then None
          else
            (case parse_chars r of
               None \<Rightarrow> None
             | Some (k, r1) \<Rightarrow>
                 (case skip_ws r1 of
                    [] \<Rightarrow> None
                  | c # r2 \<Rightarrow> if c \<noteq> CHR '':'' then None else Some (k, r2))))"

function parse_value :: "string \<Rightarrow> (jsval \<times> string) option"
  and parse_elements :: "string \<Rightarrow> (jsval list \<times> string) option"
  and parse_members :: "string \<Rightarrow> ((string \<times> jsval) list \<times> string) option" where
  "parse_value s =
     (case skip_ws s of
        [] \<Rightarrow> None
      | c # r \<Rightarrow>
          if c = CHR ''['' then
            (case skip_ws r of
               [] \<Rightarrow> None
             | c1 # r1 \<Rightarrow>
                 if c1 = CHR '']'' then Some (JArr [], r1)
                 else map_option (apfst JArr) (parse_elements r))
          else if c = CHR ''{'' then
            (case skip_ws r of
               [] \<Rightarrow> None
             | c1 # r1 \<Rightarrow>
                 if c1 = CHR ''}'' then Some (JObj [], r1)
                 else map_option (apfst (\<lambda>ms. JObj (build_object ms))) (parse_members r))
          else parse_leaf c r)"
| "parse_elements s =
     (case parse_value s of
        None \<Rightarrow> None
      | Some (v, r) \<Rightarrow>
          (case skip_ws r of
             [] \<Rightarrow> None
           | c # r1 \<Rightarrow>
               if c = CHR '','' then
                 (if length r1 < length s then map_option (apfst ((#) v)) (parse_elements r1)
                  else None)
               else if c = CHR '']'' then Some ([v], r1)
               else None))"
| "parse_members s =
     (case parse_key s of
        None \<Rightarrow> None
      | Some (k, r2) \<Rightarrow>
          if length r2 < length s then
            (case parse_value r2 of
               None \<Rightarrow> None
             | Some (v, r3) \<Rightarrow>
                 (case skip_ws r3 of
                    [] \<Rightarrow> None
                  | d # r4 \<Rightarrow>
                      if d = CHR '','' then
                        (if length r4 < length s
                         then map_option (apfst ((#) (k, v))) (parse_members r4)
                         else None)
                      else if d = CHR ''}'' then Some ([(k, v)], r4)
                      else None))
          else None)"
  by pat_completeness auto
termination
proof -
  have shorter: "length r < length s" if "skip_ws s = c # r" for s c r
  proof -
    have "length (skip_ws s) \<le> length s" by (simp add: skip_ws_def length_dropWhile_le)
    with that show ?thesis by simp
  qed
  show ?thesis
    by (relation "measure (\<lambda>x. case x of
                     Inl s \<Rightarrow> 2 * length s
                   | Inr (Inl s) \<Rightarrow> 2 * length s + 1
                   | Inr (Inr s) \<Rightarrow> 2 * length s + 1)")
      (auto dest: shorter)
qed

declare parse_value.simps [simp del] parse_elements.simps [simp del] parse_members.simps [simp del]

definition JSON_parse :: "string \<Rightarrow> error + jsval" where
  "JSON_parse s =
     (case parse_value s of
        None \<Rightarrow> Inl SyntaxError
      | Some (v, r) \<Rightarrow> if skip_ws r = [] then Inr v else Inl SyntaxError)"

subsection \<open>Serializable values\<close>

text \<open>
  A value the default codec gives back unchanged: it contains no undefined, and the
  property names of each of its objects are distinct. \<open>serializable\<close> also admits undefined
  itself as the value handed to \<^verbatim>\<open>set\<close>.
\<close>

fun json_wf :: "jsval \<Rightarrow> bool" where
  "json_wf JUndefined = False"
| "json_wf (JArr xs) = (\<forall>x \<in> set xs. json_wf x)"
| "json_wf (JObj kvs) = ((\<forall>kv \<in> set kvs. json_wf (snd kv)) \<and> distinct (map fst kvs))"
| "json_wf _ = True"

definition serializable :: "jsval \<Rightarrow> bool" where
  "serializable v = (v = JUndefined \<or> json_wf v)"

text \<open>\<^verbatim>\<open>name in x\<close> for an object: whether it has the property at all.\<close>

fun js_has :: "jsval \<Rightarrow> string \<Rightarrow> bool" where
  "js_has (JObj kvs) name = (name \<in> fst ` set kvs)"
| "js_has _ name = False"

text \<open>What may follow the text of a value inside a larger text.\<close>

definition delim :: "string \<Rightarrow> bool" where
  "delim rest = (rest = [] \<or> hd rest = CHR '','' \<or> hd rest = CHR '']'' \<or> hd rest = CHR ''}'')"

section \<open>Namespaces and storage keys\<close>

text \<open>\<^verbatim>\<open>namespace.replace(/:+$/, "")\<close>: the trailing run of colons is removed.\<close>

definition strip_trailing_colons :: "string \<Rightarrow> string" where
  "strip_trailing_colons s = rev (dropWhile (\<lambda>c. c = CHR '':'') (rev s))"

definition normalizeNamespace :: "string option \<Rightarrow> string" where
  "normalizeNamespace namespace =
     (case namespace of
        None \<Rightarrow> ''lsp''
      | Some ns \<Rightarrow> if ns = [] then ''lsp'' else strip_trailing_colons ns)"

definition makeKey :: "string \<Rightarrow> string \<Rightarrow> string" where
  "makeKey namespace key = namespace @ '':'' @ key"

section \<open>Storage backends\<close>

text \<open>
  \<^verbatim>\<open>StorageLike\<close> is an interface: a backend is an object with a state of its own and
  the six members below, any of which may throw. A method that writes returns the error it
  threw, if any, and the state it leaves; \<^verbatim>\<open>getItem\<close>, \<^verbatim>\<open>key\<close> and \<^verbatim>\<open>length\<close> read
  the state. \<^verbatim>\<open>key\<close> is optional.
\<close>

record 's StorageLike =
  sl_length :: "'s \<Rightarrow> nat"
  sl_clear :: "'s \<Rightarrow> error option \<times> 's"
  sl_getItem :: "string \<Rightarrow> 's \<Rightarrow> error + string option"
  sl_key :: "(nat \<Rightarrow> 's \<Rightarrow> error + string option) option"
  sl_removeItem :: "string \<Rightarrow> 's \<Rightarrow> error option \<times> 's"
  sl_setItem :: "string \<Rightarrow> string \<Rightarrow> 's \<Rightarrow> error option \<times> 's"

text \<open>
  \<^verbatim>\<open>MemoryStorage\<close> keeps a \<^verbatim>\<open>Map\<close> from keys to texts, which iterates in insertion
  order: writing an existing key keeps its position, a new key goes last.
\<close>

type_synonym memory = "(string \<times> string) list"

definition MemoryStorage_length :: "memory \<Rightarrow> nat" where
  "MemoryStorage_length store = length store"

definition MemoryStorage_clear :: "memory \<Rightarrow> memory" where
  "MemoryStorage_clear store = []"

definition MemoryStorage_getItem :: "string \<Rightarrow> memory \<Rightarrow> string option" where
  "MemoryStorage_getItem key store = map_of store key"

definition MemoryStorage_key :: "nat \<Rightarrow> memory \<Rightarrow> string option" where
  "MemoryStorage_key index store =
     (let keys = map fst store in if index < length keys then Some (keys ! index) else None)"

definition MemoryStorage_removeItem :: "string \<Rightarrow> memory \<Rightarrow> memory" where
  "MemoryStorage_removeItem key store = AList.delete key store"

definition MemoryStorage_setItem :: "string \<Rightarrow> string \<Rightarrow> memory \<Rightarrow> memory" where
  "MemoryStorage_setItem key val store = AList.update key val store"

text \<open>
  A storage object is either a backend supplied from outside, with its methods and its
  current state, or a \<^verbatim>\<open>MemoryStorage\<close>. The functions below are the method calls.
\<close>

datatype 's storage = Custom "'s StorageLike" 's | Memory memory

fun storage_length :: "'s storage \<Rightarrow> nat" where
  "storage_length (Custom m s) = sl_length m s"
| "storage_length (Memory store) = MemoryStorage_length store"

fun storage_getItem :: "'s storage \<Rightarrow> string \<Rightarrow> error + string option" where
  "storage_getItem (Custom m s) key = sl_getItem m key s"
| "storage_getItem (Memory store) key = Inr (MemoryStorage_getItem key store)"

fun storage_key :: "'s storage \<Rightarrow> (nat \<Rightarrow> error + string option) option" where
  "storage_key (Custom m s) = map_option (\<lambda>k index. k index s) (sl_key m)"
| "storage_key (Memory store) = Some (\<lambda>index. Inr (MemoryStorage_key index store))"

fun storage_removeItem :: "'s storage \<Rightarrow> string \<Rightarrow> error option \<times> 's storage" where
  "storage_removeItem (Custom m s) key = apsnd (Custom m) (sl_removeItem m key s)"
| "storage_removeItem (Memory store) key = (None, Memory (MemoryStorage_removeItem key store))"

fun storage_setItem :: "'s storage \<Rightarrow> string \<Rightarrow> string \<Rightarrow> error option \<times> 's storage" where
  "storage_setItem (Custom m s) key val = apsnd (Custom m) (sl_setItem m key val s)"
| "storage_setItem (Memory store) key val = (None, Memory (MemoryStorage_setItem key val store))"

definition TEST_KEY :: string where
  "TEST_KEY = ''__lsp_probe__''"

definition createMemoryStorage :: "'s storage" where
  "createMemoryStorage = Memory []"

text \<open>
  \<^verbatim>\<open>getGlobalStorage\<close> reads \<^verbatim>\<open>globalThis.localStorage ?? null\<close>; what it finds is the
  parameter \<open>globalStorage\<close>.
\<close>

definition detectStorage :: "'s storage option \<Rightarrow> 's storage option \<Rightarrow> 's storage" where
  "detectStorage custom globalStorage =
     (case custom of
        Some c \<Rightarrow> c
      | None \<Rightarrow> (case globalStorage of Some g \<Rightarrow> g | None \<Rightarrow> createMemoryStorage))"

text \<open>
  The probe writes and removes \<^verbatim>\<open>TEST_KEY\<close> inside a \<^verbatim>\<open>try\<close>; any throw makes the
  answer false. The second component is the state the probed object is left in.
\<close>

definition isStorageUsable :: "'s storage \<Rightarrow> bool \<times> 's storage" where
  "isStorageUsable st =
     (case storage_setItem st TEST_KEY ''1'' of
        (Some e, st1) \<Rightarrow> (False, st1)
      | (None, st1) \<Rightarrow>
          (case storage_removeItem st1 TEST_KEY of
             (Some e, st2) \<Rightarrow> (False, st2)
           | (None, st2) \<Rightarrow> (True, st2)))"

record 's resolved =
  resolved_storage :: "'s storage"
  usedMemoryFallback :: bool
  probed :: "'s storage"

definition resolveStorage :: "'s storage option \<Rightarrow> 's storage option \<Rightarrow> 's resolved" where
  "resolveStorage candidate globalStorage =
     (let detected = detectStorage candidate globalStorage;
          (usable, detected1) = isStorageUsable detected
      in if usable
         then \<lparr>resolved_storage = detected1, usedMemoryFallback = False, probed = detected1\<rparr>
         else \<lparr>resolved_storage = createMemoryStorage, usedMemoryFallback = True,
               probed = detected1\<rparr>)"

section \<open>Payloads\<close>

text \<open>
  \<^verbatim>\<open>encode\<close> builds the payload object and hands it to the serializer;
  \<open>encode_payload\<close> is the object it builds. \<open>now\<close> is the reading of \<^verbatim>\<open>Date.now()\<close>,
  in milliseconds.
\<close>

definition encode_payload :: "jsval \<Rightarrow> int option \<Rightarrow> int \<Rightarrow> jsval" where
  "encode_payload val ttlSeconds now =
     (case ttlSeconds of
        None \<Rightarrow> JObj [(''value'', val)]
      | Some t \<Rightarrow>
          if t \<noteq> 0 \<and> t > 0
          then JObj [(''value'', val), (''expiresAt'', JNum (now + t * 1000))]
          else JObj [(''value'', val)])"

definition encode ::
  "jsval \<Rightarrow> int option \<Rightarrow> (jsval \<Rightarrow> error + string) \<Rightarrow> int \<Rightarrow> error + string" where
  "encode val ttlSeconds serialize now = serialize (encode_payload val ttlSeconds now)"

text \<open>The result \<^verbatim>\<open>null\<close> of \<^verbatim>\<open>decode\<close> is the value \<open>JNull\<close>.\<close>

definition decode :: "string option \<Rightarrow> (string \<Rightarrow> error + jsval) \<Rightarrow> jsval" where
  "decode raw deserialize =
     (case raw of
        None \<Rightarrow> JNull
      | Some r \<Rightarrow>
          if r = [] then JNull
          else (case deserialize r of Inl e \<Rightarrow> JNull | Inr payload \<Rightarrow> payload))"

definition isExpired :: "(jsval \<Rightarrow> int \<Rightarrow> bool) \<Rightarrow> jsval \<Rightarrow> int \<Rightarrow> bool" where
  "isExpired conv payload now =
     (if \<not> truthy payload then False
      else if \<not> truthy (js_get payload ''expiresAt'') then False
      else js_le conv (js_get payload ''expiresAt'') now)"

section \<open>The store\<close>

record 's CreateStoreOptions =
  opt_namespace :: "string option"
  opt_defaultTTL :: "int option"
  opt_storage :: "'s storage option"
  opt_serialize :: "(jsval \<Rightarrow> error + string) option"
  opt_deserialize :: "(string \<Rightarrow> error + jsval) option"

record SetOptions =
  ttl :: "int option"

text \<open>
  What the closure of a store holds. The storage object is shared with whoever else holds
  it, so its state is passed to every operation and returned by it; \<^verbatim>\<open>trackedKeys\<close> is a
  \<^verbatim>\<open>Set\<close>, kept in insertion order.
\<close>

record store =
  namespace :: string
  serializer :: "jsval \<Rightarrow> error + string"
  deserializer :: "string \<Rightarrow> error + jsval"
  defaultTTL :: "int option"
  trackedKeys :: "string list"

definition tracked_add :: "string \<Rightarrow> string list \<Rightarrow> string list" where
  "tracked_add k ks = (if k \<in> set ks then ks else ks @ [k])"

definition tracked_delete :: "string \<Rightarrow> string list \<Rightarrow> string list" where
  "tracked_delete k ks = removeAll k ks"

record 's created =
  created_store :: store
  created_storage :: "'s storage"
  created_probed :: "'s storage"
  warnings :: "string list"

definition createStore :: "'s CreateStoreOptions \<Rightarrow> 's storage option \<Rightarrow> 's created" where
  "createStore options globalStorage =
     (let r = resolveStorage (opt_storage options) globalStorage
      in \<lparr>created_store =
            \<lparr>namespace = normalizeNamespace (opt_namespace options),
             serializer = (case opt_serialize options of Some f \<Rightarrow> f | None \<Rightarrow> JSON_stringify),
             deserializer = (case opt_deserialize options of Some f \<Rightarrow> f | None \<Rightarrow> JSON_parse),
             defaultTTL = opt_defaultTTL options,
             trackedKeys = []\<rparr>,
          created_storage = resolved_storage r,
          created_probed = probed r,
          warnings =
            (if usedMemoryFallback r \<and> opt_storage options = None
             then [''localStorage is unavailable; falling back to in-memory storage'']
             else [])\<rparr>)"

text \<open>
  Every operation returns what it returned or threw, the state of the storage object, and
  the store with its tracked keys, so that what a throwing call leaves behind is visible.
\<close>

definition get_store ::
  "(jsval \<Rightarrow> int \<Rightarrow> bool) \<Rightarrow> store \<Rightarrow> string \<Rightarrow> int \<Rightarrow> 's storage
     \<Rightarrow> (error + jsval) \<times> 's storage \<times> store" where
  "get_store conv s key now st =
     (let storageKey = makeKey (namespace s) key in
      case storage_getItem st storageKey of
        Inl e \<Rightarrow> (Inl e, st, s)
      | Inr raw \<Rightarrow>
          (let payload = decode raw (deserializer s) in
           if isExpired conv payload now then
             (case storage_removeItem st storageKey of
                (Some e, st1) \<Rightarrow> (Inl e, st1, s)
              | (None, st1) \<Rightarrow>
                  (Inr JNull, st1, s\<lparr>trackedKeys := tracked_delete storageKey (trackedKeys s)\<rparr>))
           else if \<not> truthy payload then
             (Inr JNull, st, s\<lparr>trackedKeys := tracked_delete storageKey (trackedKeys s)\<rparr>)
           else
             (Inr (js_get payload ''value''), st,
              s\<lparr>trackedKeys := tracked_add storageKey (trackedKeys s)\<rparr>)))"

text \<open>\<^verbatim>\<open>setOptions?.ttl ?? defaultTTL\<close>\<close>

definition effective_ttl :: "SetOptions option \<Rightarrow> int option \<Rightarrow> int option" where
  "effective_ttl setOptions dflt =
     (case (case setOptions of None \<Rightarrow> None | Some so \<Rightarrow> ttl so) of
        Some t \<Rightarrow> Some t
      | None \<Rightarrow> dflt)"

definition set_store ::
  "store \<Rightarrow> string \<Rightarrow> jsval \<Rightarrow> SetOptions option \<Rightarrow> int \<Rightarrow> 's storage
     \<Rightarrow> error option \<times> 's storage \<times> store" where
  "set_store s key val setOptions now st =
     (let storageKey = makeKey (namespace s) key;
          ttl1 = effective_ttl setOptions (defaultTTL s)
      in case encode val ttl1 (serializer s) now of
           Inl e \<Rightarrow> (Some e, st, s)
         | Inr text \<Rightarrow>
             (case storage_setItem st storageKey text of
                (Some e, st1) \<Rightarrow> (Some e, st1, s)
              | (None, st1) \<Rightarrow>
                  (None, st1, s\<lparr>trackedKeys := tracked_add storageKey (trackedKeys s)\<rparr>)))"

definition remove_store :: "store \<Rightarrow> string \<Rightarrow> 's storage \<Rightarrow> error option \<times> 's storage \<times> store" where
  "remove_store s key st =
     (let storageKey = makeKey (namespace s) key in
      case storage_removeItem st storageKey of
        (Some e, st1) \<Rightarrow> (Some e, st1, s)
      | (None, st1) \<Rightarrow>
          (None, st1, s\<lparr>trackedKeys := tracked_delete storageKey (trackedKeys s)\<rparr>))"

text \<open>\<^verbatim>\<open>keys.forEach((key) => storage.removeItem(key))\<close>: the first throw ends the loop.\<close>

fun remove_each :: "'s storage \<Rightarrow> string list \<Rightarrow> error option \<times> 's storage" where
  "remove_each st [] = (None, st)"
| "remove_each st (k # ks) =
     (case storage_removeItem st k of
        (Some e, st1) \<Rightarrow> (Some e, st1)
      | (None, st1) \<Rightarrow> remove_each st1 ks)"

text \<open>Whether \<^verbatim>\<open>clear\<close> collects a key: \<^verbatim>\<open>key && key.startsWith(`${namespace}:`)\<close>.\<close>

definition in_namespace :: "string \<Rightarrow> string \<Rightarrow> bool" where
  "in_namespace ns k = (k \<noteq> [] \<and> prefix (ns @ '':'') k)"

text \<open>
  The loop \<^verbatim>\<open>for (let i = 0; i < storage.length; i += 1)\<close> of \<^verbatim>\<open>clear\<close>, which collects
  the keys with the prefix of the namespace; nothing is removed while it runs.
\<close>

function scan_keys ::
  "string \<Rightarrow> 's storage \<Rightarrow> (nat \<Rightarrow> error + string option) \<Rightarrow> nat \<Rightarrow> string list
     \<Rightarrow> error + string list" where
  "scan_keys ns st keyAccessor i keysToRemove =
     (if i < storage_length st then
        (case keyAccessor i of
           Inl e \<Rightarrow> Inl e
         | Inr key \<Rightarrow>
             scan_keys ns st keyAccessor (i + 1)
               (case key of
                  None \<Rightarrow> keysToRemove
                | Some k \<Rightarrow> if in_namespace ns k then keysToRemove @ [k] else keysToRemove))
      else Inr keysToRemove)"
  by pat_completeness auto
termination
  by (relation "measure (\<lambda>(ns, st, keyAccessor, i, keysToRemove). storage_length st - i)") auto

declare scan_keys.simps [simp del]

definition clear_store :: "store \<Rightarrow> 's storage \<Rightarrow> error option \<times> 's storage \<times> store" where
  "clear_store s st =
     (case storage_key st of
        None \<Rightarrow>
          (case remove_each st (trackedKeys s) of
             (Some e, st1) \<Rightarrow> (Some e, st1, s)
           | (None, st1) \<Rightarrow> (None, st1, s\<lparr>trackedKeys := []\<rparr>))
      | Some keyAccessor \<Rightarrow>
          (case scan_keys (namespace s) st keyAccessor 0 [] of
             Inl e \<Rightarrow> (Some e, st, s)
           | Inr keysToRemove \<Rightarrow>
               (case remove_each st keysToRemove of (r, st1) \<Rightarrow> (r, st1, s))))"

text \<open>
  The tracked keys of a store all carry the prefix of its namespace: every operation keeps
  this (\<open>tracked_in_namespace_kept\<close>), and a new store tracks no key.
\<close>

definition tracked_in_namespace :: "store \<Rightarrow> bool" where
  "tracked_in_namespace s = (\<forall>k \<in> set (trackedKeys s). in_namespace (namespace s) k)"

section \<open>Fixtures\<close>

text \<open>
  \<open>BrokenStorage\<close> is the backend of the test suite whose every method throws.
  \<open>memory_store\<close> is the store the tests build over a fresh \<^verbatim>\<open>MemoryStorage\<close> with the
  default codec. \<open>strict_serializer\<close> is a serializer that throws on a payload whose
  value is a number and serializes every other payload as the default does.
  \<open>no_coercion\<close> is a runtime conversion under which no string, array or object compares
  as a number. \<open>KeylessStorage\<close> is a backend with the methods of \<^verbatim>\<open>MemoryStorage\<close> but
  without \<^verbatim>\<open>key\<close>, on which \<^verbatim>\<open>clear\<close> falls back on the tracked keys.
\<close>

definition no_coercion :: "jsval \<Rightarrow> int \<Rightarrow> bool" where
  "no_coercion x n = False"

definition BrokenStorage :: "unit storage" where
  "BrokenStorage =
     Custom \<lparr>sl_length = (\<lambda>s. 0),
             sl_clear = (\<lambda>s. (Some (Thrown ''broken''), s)),
             sl_getItem = (\<lambda>key s. Inl (Thrown ''broken'')),
             sl_key = Some (\<lambda>index s. Inl (Thrown ''broken'')),
             sl_removeItem = (\<lambda>key s. (Some (Thrown ''broken''), s)),
             sl_setItem = (\<lambda>key val s. (Some (Thrown ''broken''), s))\<rparr> ()"

definition strict_serializer :: "jsval \<Rightarrow> error + string" where
  "strict_serializer payload =
     (case js_get payload ''value'' of
        JNum n \<Rightarrow> Inl (Thrown ''TypeError'')
      | _ \<Rightarrow> JSON_stringify payload)"

definition KeylessStorage :: "memory \<Rightarrow> memory storage" where
  "KeylessStorage store =
     Custom \<lparr>sl_length = MemoryStorage_length,
             sl_clear = (\<lambda>s. (None, MemoryStorage_clear s)),
             sl_getItem = (\<lambda>key s. Inr (MemoryStorage_getItem key s)),
             sl_key = None,
             sl_removeItem = (\<lambda>key s. (None, MemoryStorage_removeItem key s)),
             sl_setItem = (\<lambda>key val s. (None, MemoryStorage_setItem key val s))\<rparr> store"

definition memory_store :: "string \<Rightarrow> int option \<Rightarrow> store" where
  "memory_store ns d =
     created_store
       (createStore \<lparr>opt_namespace = Some ns, opt_defaultTTL = d,
                     opt_storage = Some (Memory [] :: unit storage),
                     opt_serialize = None, opt_deserialize = None\<rparr> None)"

section \<open>The default codec gives back what it was given\<close>

subsection \<open>Numbers and strings\<close>

lemma of_char_digit_char: "d < 10 \<Longrightarrow> (of_char (digit_char d) :: nat) = 48 + d"
  by (simp add: digit_char_def)

lemma is_digit_digit_char: "d < 10 \<Longrightarrow> is_digit (digit_char d)"
  by (simp add: is_digit_def of_char_digit_char)

lemma show_nat_digits: "\<forall>c \<in> set (show_nat n). is_digit c"
proof (induction n rule: show_nat.induct)
  case (1 n)
  show ?case
  proof (cases "n < 10")
    case True
    then show ?thesis by (subst show_nat.simps) (simp add: is_digit_digit_char)
  next
    case False
    with 1 show ?thesis by (subst show_nat.simps) (simp add: is_digit_digit_char)
  qed
qed

lemma show_nat_nonempty: "show_nat n \<noteq> []"
  by (subst show_nat.simps) simp

lemma digits_val_snoc: "digits_val (ds @ [c]) = 10 * digits_val ds + ((of_char c :: nat) - 48)"
  by (simp add: digits_val_def)

lemma digits_val_show_nat: "digits_val (show_nat n) = n"
proof (induction n rule: show_nat.induct)
  case (1 n)
  show ?case
  proof (cases "n < 10")
    case True
    then show ?thesis
      by (subst show_nat.simps) (simp add: digits_val_def of_char_digit_char)
  next
    case False
    with 1 have "digits_val (show_nat (n div 10)) = n div 10" by simp
    with False show ?thesis
      by (subst show_nat.simps) (simp add: digits_val_snoc of_char_digit_char)
  qed
qed

lemma show_nat_0: "show_nat 0 = ''0''"
  by code_simp

lemma show_nat_leading: "hd (show_nat n) = CHR ''0'' \<Longrightarrow> show_nat n = ''0''"
proof (induction n rule: show_nat.induct)
  case (1 n)
  show ?case
  proof (cases "n < 10")
    case True
    with 1(2) have "digit_char n = CHR ''0''" by (subst (asm) show_nat.simps) simp
    then have "(of_char (digit_char n) :: nat) = 48" by simp
    with True have "n = 0" by (simp add: of_char_digit_char)
    then show ?thesis by (simp add: show_nat_0)
  next
    case False
    with 1(2) have "hd (show_nat (n div 10)) = CHR ''0''"
      by (subst (asm) show_nat.simps) (simp add: show_nat_nonempty)
    with 1(1) False have "show_nat (n div 10) = ''0''" by simp
    then have "digits_val (show_nat (n div 10)) = 0" by (simp add: digits_val_def)
    then have "n div 10 = 0" by (simp add: digits_val_show_nat)
    with False show ?thesis by simp
  qed
qed

lemma takeWhile_digits:
  "(\<forall>c \<in> set ds. is_digit c) \<Longrightarrow> rest = [] \<or> \<not> is_digit (hd rest) \<Longrightarrow>
   takeWhile is_digit (ds @ rest) = ds \<and> dropWhile is_digit (ds @ rest) = rest"
  by (cases rest) (simp_all add: takeWhile_append2 dropWhile_append2)

lemma delim_not_digit: "delim rest \<Longrightarrow> rest = [] \<or> \<not> is_digit (hd rest)"
  by (auto simp: delim_def is_digit_def)

lemma delim_not_frac:
  "delim rest \<Longrightarrow> \<not> (rest \<noteq> [] \<and> (hd rest = CHR ''.'' \<or> hd rest = CHR ''e'' \<or> hd rest = CHR ''E''))"
  by (auto simp: delim_def)

lemma show_nat_hd_digit: "is_digit (hd (show_nat n))"
  using show_nat_digits [of n] show_nat_nonempty [of n] by (cases "show_nat n") auto

lemma parse_number_show_nat:
  assumes "delim rest"
  shows "parse_number (show_nat n @ rest) = Some (JNum (int n), rest)"
proof -
  have nd: "hd (show_nat n @ rest) \<noteq> CHR ''-''"
    using show_nat_hd_digit [of n] show_nat_nonempty [of n]
    by (auto simp: is_digit_def hd_append)
  have tw: "takeWhile is_digit (show_nat n @ rest) = show_nat n"
    and dw: "dropWhile is_digit (show_nat n @ rest) = rest"
    using takeWhile_digits [OF show_nat_digits delim_not_digit [OF assms]] by auto
  have lead: "\<not> (hd (show_nat n) = CHR ''0'' \<and> tl (show_nat n) \<noteq> [])"
    using show_nat_leading [of n] by auto
  show ?thesis
    using nd lead delim_not_frac [OF assms]
    by (simp add: parse_number_def tw dw show_nat_nonempty digits_val_show_nat Let_def)
qed

lemma parse_number_show_int:
  assumes "delim rest"
  shows "parse_number (show_int i @ rest) = Some (JNum i, rest)"
proof (cases "i < 0")
  case False
  then show ?thesis using parse_number_show_nat [OF assms, of "nat i"] by (simp add: show_int_def)
next
  case True
  let ?n = "nat (- i)"
  have tw: "takeWhile is_digit (show_nat ?n @ rest) = show_nat ?n"
    and dw: "dropWhile is_digit (show_nat ?n @ rest) = rest"
    using takeWhile_digits [OF show_nat_digits delim_not_digit [OF assms]] by auto
  have lead: "\<not> (hd (show_nat ?n) = CHR ''0'' \<and> tl (show_nat ?n) \<noteq> [])"
    using show_nat_leading [of ?n] by auto
  show ?thesis
    using True lead delim_not_frac [OF assms]
    by (simp add: parse_number_def show_int_def tw dw show_nat_nonempty digits_val_show_nat Let_def)
qed

lemma hex_val_hex_char: "d < 16 \<Longrightarrow> hex_val (hex_char d) = Some d"
  by (simp add: hex_val_def hex_char_def Let_def)

lemma hex4_control:
  assumes "(of_char c :: nat) < 32"
  shows "hex4 (CHR ''0'') (CHR ''0'') (hex_char ((of_char c :: nat) div 16))
           (hex_char ((of_char c :: nat) mod 16)) = Some c"
proof -
  let ?n = "of_char c :: nat"
  have d: "?n div 16 < 16" using assms by simp
  have m: "?n mod 16 < 16" by simp
  have z: "hex_val (CHR ''0'') = Some 0" by (simp add: hex_val_def)
  have "char_of (16 * (?n div 16) + ?n mod 16) = c" by simp
  then show ?thesis
    by (simp add: hex4_def z hex_val_hex_char [OF d] hex_val_hex_char [OF m])
qed

lemma parse_chars_escape:
  "parse_chars (escape_char c @ t) = map_option (apfst ((#) c)) (parse_chars t)"
proof -
  consider (quote) "c = CHR 0x22" | (bs) "c = CHR 0x5C" | (b) "c = CHR 0x08" | (f) "c = CHR 0x0C"
    | (n) "c = CHR 0x0A" | (r) "c = CHR 0x0D" | (t) "c = CHR 0x09"
    | (ctl) "c \<noteq> CHR 0x22" "c \<noteq> CHR 0x5C" "c \<noteq> CHR 0x08" "c \<noteq> CHR 0x0C" "c \<noteq> CHR 0x0A"
        "c \<noteq> CHR 0x0D" "c \<noteq> CHR 0x09" "(of_char c :: nat) < 32"
    | (plain) "c \<noteq> CHR 0x22" "c \<noteq> CHR 0x5C" "c \<noteq> CHR 0x08" "c \<noteq> CHR 0x0C" "c \<noteq> CHR 0x0A"
        "c \<noteq> CHR 0x0D" "c \<noteq> CHR 0x09" "\<not> (of_char c :: nat) < 32"
    by blast
  then show ?thesis
  proof cases
    case ctl
    then show ?thesis by (simp add: escape_char_def hex4_control)
  next
    case plain
    then show ?thesis by (simp add: escape_char_def)
  qed (simp_all add: escape_char_def unescape_def)
qed

lemma parse_chars_quoted:
  "parse_chars (concat (map escape_char s) @ CHR 0x22 # rest) = Some (s, rest)"
  by (induction s) (simp_all add: parse_chars_escape)

lemma skip_ws_cons: "\<not> is_ws c \<Longrightarrow> skip_ws (c # s) = c # s"
  by (simp add: skip_ws_def)

lemma show_int_hd: "\<exists>c cs. show_int i = c # cs \<and> (c = CHR ''-'' \<or> is_digit c)"
proof (cases "i < 0")
  case True
  then show ?thesis by (simp add: show_int_def)
next
  case False
  obtain c cs where "show_nat (nat i) = c # cs"
    using show_nat_nonempty [of "nat i"] by (cases "show_nat (nat i)") auto
  moreover from this have "is_digit c" using show_nat_hd_digit [of "nat i"] by simp
  ultimately show ?thesis using False by (simp add: show_int_def)
qed

lemma json_text_hd:
  "json_wf v \<Longrightarrow> \<exists>c cs. json_text v = c # cs \<and> \<not> is_ws c \<and> c \<noteq> CHR '']''"
proof (cases v)
  case (JNum i)
  obtain c cs where sc: "show_int i = c # cs" and c: "c = CHR ''-'' \<or> is_digit c"
    using show_int_hd by blast
  from c have "\<not> is_ws c" "c \<noteq> CHR '']''" by (auto simp: is_ws_def is_digit_def)
  with sc JNum show ?thesis by simp
qed (simp_all add: is_ws_def quote_def)

lemma build_object_acc:
  "distinct (map fst (acc @ ms)) \<Longrightarrow>
   foldl (\<lambda>a kv. AList.update (fst kv) (snd kv) a) acc ms = acc @ ms"
proof (induction ms arbitrary: acc)
  case Nil
  then show ?case by simp
next
  case (Cons kv ms)
  from Cons.prems have "fst kv \<notin> fst ` set acc" by auto
  then have u: "AList.update (fst kv) (snd kv) acc = acc @ [kv]"
    by (induction acc) auto
  from Cons.prems have "distinct (map fst ((acc @ [kv]) @ ms))" by simp
  from Cons.IH [OF this] show ?case by (simp add: u)
qed

lemma build_object_distinct: "distinct (map fst ms) \<Longrightarrow> build_object ms = ms"
  using build_object_acc [of "[]" ms] by (simp add: build_object_def)

lemma parse_leaf_number:
  "parse_leaf c (cs @ rest) = parse_number (c # cs @ rest)" if "show_int i = c # cs"
proof -
  from that have "c = CHR ''-'' \<or> is_digit c" using show_int_hd [of i] by auto
  then have "c \<noteq> CHR 0x22" "c \<noteq> CHR ''n''" "c \<noteq> CHR ''t''" "c \<noteq> CHR ''f''"
    by (auto simp: is_digit_def)
  then show ?thesis by (simp add: parse_leaf_def)
qed

lemma parse_key_quoted: "parse_key (quote k @ CHR '':'' # t) = Some (k, t)"
  by (simp add: parse_key_def quote_def skip_ws_cons is_ws_def parse_chars_quoted)

lemma join_commas_cons:
  "join_commas (a # as) = (if as = [] then a else a @ CHR '','' # join_commas as)"
  by (cases as) simp_all

lemma join_commas_hd: "\<exists>t. join_commas ((c # cs) # as) @ r = c # t"
  by (cases as) simp_all

subsection \<open>Values\<close>

lemma parse_roundtrip:
  shows "json_wf v \<Longrightarrow> delim rest \<Longrightarrow> parse_value (json_text v @ rest) = Some (v, rest)"
    and "(\<forall>x \<in> set xs. json_wf x) \<Longrightarrow> xs \<noteq> [] \<Longrightarrow>
           parse_elements (join_commas (json_elems xs) @ CHR '']'' # rest) = Some (xs, rest)"
    and "(\<forall>kv \<in> set kvs. json_wf (snd kv)) \<Longrightarrow> kvs \<noteq> [] \<Longrightarrow>
           parse_members (join_commas (json_members kvs) @ CHR ''}'' # rest) = Some (kvs, rest)"
proof (induction v and xs and kvs arbitrary: rest and rest and rest
    rule: json_text_json_elems_json_members.induct)
  case 1
  then show ?case by simp
next
  case 2
  show ?case
    by (subst parse_value.simps) (simp add: skip_ws_cons is_ws_def parse_leaf_def strip_prefix_def)
next
  case (3 b)
  show ?case
    by (subst parse_value.simps) (simp add: skip_ws_cons is_ws_def parse_leaf_def strip_prefix_def)
next
  case (4 i)
  obtain c cs where sc: "show_int i = c # cs" and c: "c = CHR ''-'' \<or> is_digit c"
    using show_int_hd by blast
  from c have nc: "\<not> is_ws c" "c \<noteq> CHR ''[''" "c \<noteq> CHR ''{''"
    by (auto simp: is_ws_def is_digit_def)
  have "parse_value (show_int i @ rest) = parse_leaf c (cs @ rest)"
    by (subst parse_value.simps) (simp add: sc skip_ws_cons nc)
  also have "\<dots> = parse_number (show_int i @ rest)"
    by (simp add: parse_leaf_number [OF sc] sc)
  also have "\<dots> = Some (JNum i, rest)" by (rule parse_number_show_int [OF 4(2)])
  finally show ?case by simp
next
  case (5 s)
  show ?case
    by (subst parse_value.simps)
      (simp add: quote_def skip_ws_cons is_ws_def parse_leaf_def parse_chars_quoted)
next
  case (6 xs)
  show ?case
  proof (cases xs)
    case Nil
    then show ?thesis by (subst parse_value.simps) (simp add: skip_ws_cons is_ws_def)
  next
    case (Cons x ys)
    with 6 have wf: "\<forall>x \<in> set xs. json_wf x" by simp
    from wf Cons obtain c cs where t: "json_text x = c # cs" and c: "\<not> is_ws c" "c \<noteq> CHR '']''"
      using json_text_hd [of x] by auto
    have e: "parse_elements (join_commas (json_elems xs) @ CHR '']'' # rest) = Some (xs, rest)"
      using 6(1) [OF wf] Cons by simp
    obtain tl where j: "join_commas (json_elems xs) @ CHR '']'' # rest = c # tl"
      using Cons t join_commas_hd [of c cs "json_elems ys" "CHR '']'' # rest"] by auto
    have "parse_value (CHR ''['' # join_commas (json_elems xs) @ CHR '']'' # rest)
            = map_option (apfst JArr) (parse_elements (join_commas (json_elems xs) @ CHR '']'' # rest))"
      using c by (subst parse_value.simps) (simp add: j skip_ws_cons is_ws_def)
    then show ?thesis by (simp add: e)
  qed
next
  case (7 kvs)
  from 7 have wf: "\<forall>kv \<in> set kvs. json_wf (snd kv)" and d: "distinct (map fst kvs)" by simp_all
  show ?case
  proof (cases kvs)
    case Nil
    then show ?thesis by (subst parse_value.simps) (simp add: skip_ws_cons is_ws_def)
  next
    case (Cons kv ys)
    have e: "parse_members (join_commas (json_members kvs) @ CHR ''}'' # rest) = Some (kvs, rest)"
      using 7(1) [OF wf] Cons by simp
    from wf Cons have "snd kv \<noteq> JUndefined" by auto
    then obtain tl where j: "join_commas (json_members kvs) @ CHR ''}'' # rest = CHR 0x22 # tl"
      using Cons join_commas_hd [of "CHR 0x22" _ "json_members ys" "CHR ''}'' # rest"]
      by (auto simp: quote_def)
    have "parse_value (CHR ''{'' # join_commas (json_members kvs) @ CHR ''}'' # rest)
            = map_option (apfst (\<lambda>ms. JObj (build_object ms)))
                (parse_members (join_commas (json_members kvs) @ CHR ''}'' # rest))"
      by (subst parse_value.simps) (simp add: j skip_ws_cons is_ws_def)
    then show ?thesis by (simp add: e build_object_distinct [OF d])
  qed
next
  case 8
  then show ?case by simp
next
  case (9 x xs)
  from 9 have wx: "json_wf x" and wxs: "\<forall>x \<in> set xs. json_wf x" by simp_all
  show ?case
  proof (cases xs)
    case Nil
    have "parse_value (json_text x @ CHR '']'' # rest) = Some (x, CHR '']'' # rest)"
      using 9(1) [OF wx] by (simp add: delim_def)
    then show ?thesis
      by (subst parse_elements.simps) (simp add: Nil skip_ws_cons is_ws_def)
  next
    case (Cons y ys)
    have "parse_value (json_text x @ CHR '','' # join_commas (json_elems xs) @ CHR '']'' # rest)
            = Some (x, CHR '','' # join_commas (json_elems xs) @ CHR '']'' # rest)"
      using 9(1) [OF wx] by (simp add: delim_def)
    moreover have "parse_elements (join_commas (json_elems xs) @ CHR '']'' # rest) = Some (xs, rest)"
      using 9(2) [OF wxs] Cons by simp
    ultimately show ?thesis using Cons
      by (subst parse_elements.simps) (simp add: skip_ws_cons is_ws_def)
  qed
next
  case 10
  then show ?case by simp
next
  case (11 kv kvs)
  from 11 have wx: "json_wf (snd kv)" and wxs: "\<forall>kv \<in> set kvs. json_wf (snd kv)" by simp_all
  then have ud: "snd kv \<noteq> JUndefined" by auto
  show ?case
  proof (cases kvs)
    case Nil
    have "parse_value (json_text (snd kv) @ CHR ''}'' # rest) = Some (snd kv, CHR ''}'' # rest)"
      using 11(2) [OF ud wx] by (simp add: delim_def)
    then show ?thesis using ud
      by (subst parse_members.simps) (simp add: Nil skip_ws_cons is_ws_def parse_key_quoted)
  next
    case (Cons y ys)
    from wxs Cons have "json_members kvs \<noteq> []" by auto
    have "parse_value (json_text (snd kv) @ CHR '','' # join_commas (json_members kvs) @ CHR ''}'' # rest)
            = Some (snd kv, CHR '','' # join_commas (json_members kvs) @ CHR ''}'' # rest)"
      using 11(2) [OF ud wx] by (simp add: delim_def)
    moreover have "parse_members (join_commas (json_members kvs) @ CHR ''}'' # rest) = Some (kvs, rest)"
      using 11(3) [OF ud wxs] Cons by simp
    ultimately show ?thesis using ud \<open>json_members kvs \<noteq> []\<close>
      by (subst parse_members.simps)
        (simp add: skip_ws_cons is_ws_def parse_key_quoted join_commas_cons)
  qed
qed

lemma JSON_parse_stringify:
  assumes "json_wf v"
  shows "JSON_parse (json_text v) = Inr v"
proof -
  have "parse_value (json_text v @ []) = Some (v, [])"
    by (rule parse_roundtrip(1) [OF assms]) (simp add: delim_def)
  then show ?thesis by (simp add: JSON_parse_def skip_ws_def)
qed

subsection \<open>Every parser consumes input\<close>

lemma skip_ws_shorter: "skip_ws s = c # r \<Longrightarrow> length r < length s"
proof -
  assume a: "skip_ws s = c # r"
  have "length (skip_ws s) \<le> length s" by (simp add: skip_ws_def length_dropWhile_le)
  with a show ?thesis by simp
qed

lemma parse_chars_shorter: "parse_chars s = Some (k, r) \<Longrightarrow> length r < length s"
proof (induction "length s" arbitrary: s k r rule: less_induct)
  case less
  from less.prems obtain c cs where s: "s = c # cs" by (cases s) auto
  show ?case
  proof (cases "c = CHR 0x22")
    case True
    with less.prems s show ?thesis by simp
  next
    case q: False
    show ?thesis
    proof (cases "c = CHR 0x5C")
      case False
      with q less.prems s obtain k' where p: "parse_chars cs = Some (k', r)"
        by (auto split: if_splits)
      have "length r < length cs" by (rule less.hyps [OF _ p]) (simp add: s)
      then show ?thesis by (simp add: s)
    next
      case True
      with q less.prems s obtain e cs1 where cs: "cs = e # cs1" by (cases cs) auto
      show ?thesis
      proof (cases "e = CHR ''u''")
        case u: True
        with q True s cs less.prems obtain h1 h2 h3 h4 cs2 k' where
          c2: "cs1 = h1 # h2 # h3 # h4 # cs2" and p: "parse_chars cs2 = Some (k', r)"
          by (auto split: list.splits option.splits)
        have "length r < length cs2" by (rule less.hyps [OF _ p]) (simp add: s cs c2)
        then show ?thesis by (simp add: s cs c2)
      next
        case nu: False
        with q True s cs less.prems obtain k' where p: "parse_chars cs1 = Some (k', r)"
          by (auto split: option.splits)
        have "length r < length cs1" by (rule less.hyps [OF _ p]) (simp add: s cs)
        then show ?thesis by (simp add: s cs)
      qed
    qed
  qed
qed

lemma parse_number_shorter: "parse_number s = Some (v, r) \<Longrightarrow> length r < length s"
proof -
  assume a: "parse_number s = Some (v, r)"
  let ?s1 = "if s \<noteq> [] \<and> hd s = CHR ''-'' then tl s else s"
  from a have ds: "takeWhile is_digit ?s1 \<noteq> []" and r: "r = dropWhile is_digit ?s1"
    by (auto simp: parse_number_def Let_def split: if_splits)
  have "length (takeWhile is_digit ?s1) + length (dropWhile is_digit ?s1) = length ?s1"
    by (metis length_append takeWhile_dropWhile_id)
  with ds have "length (dropWhile is_digit ?s1) < length ?s1"
    by (cases "takeWhile is_digit ?s1") auto
  moreover have "length ?s1 \<le> length s" by simp
  ultimately show ?thesis using r by simp
qed

lemma parse_leaf_shorter: "parse_leaf c r = Some (v, r') \<Longrightarrow> length r' \<le> length r"
  by (auto simp: parse_leaf_def strip_prefix_def split: if_splits
      dest!: parse_chars_shorter parse_number_shorter)

lemma parse_key_shorter: "parse_key s = Some (k, r2) \<Longrightarrow> length r2 < length s"
proof -
  assume a: "parse_key s = Some (k, r2)"
  then obtain q r where s: "skip_ws s = q # r" by (auto simp: parse_key_def split: list.splits)
  with a obtain r1 where p: "parse_chars r = Some (k, r1)"
    by (auto simp: parse_key_def split: if_splits option.splits list.splits)
  with a s obtain c where k: "skip_ws r1 = c # r2"
    by (auto simp: parse_key_def split: if_splits list.splits)
  from skip_ws_shorter [OF s] parse_chars_shorter [OF p] skip_ws_shorter [OF k]
  show ?thesis by simp
qed

lemma parse_shorter_all:
  "(\<forall>v r. parse_value s = Some (v, r) \<longrightarrow> length r < length s)
   \<and> (\<forall>xs r. parse_elements s = Some (xs, r) \<longrightarrow> length r < length s)
   \<and> (\<forall>ms r. parse_members s = Some (ms, r) \<longrightarrow> length r < length s)"
proof (induction "length s" arbitrary: s rule: less_induct)
  case less
  have V: "length r < length s" if pv: "parse_value s = Some (v, r)" for v r
  proof -
    from pv obtain c r0 where sk: "skip_ws s = c # r0"
      by (subst (asm) parse_value.simps) (auto split: list.splits)
    note l0 = skip_ws_shorter [OF sk]
    consider (arr) "c = CHR ''[''" | (obj) "c \<noteq> CHR ''[''" "c = CHR ''{''"
      | (leaf) "c \<noteq> CHR ''[''" "c \<noteq> CHR ''{''" by blast
    then show ?thesis
    proof cases
      case arr
      with pv sk obtain c1 r1 where s1: "skip_ws r0 = c1 # r1"
        by (subst (asm) parse_value.simps) (auto split: list.splits)
      show ?thesis
      proof (cases "c1 = CHR '']''")
        case True
        with pv sk arr s1 have "r = r1" by (subst (asm) parse_value.simps) simp
        with skip_ws_shorter [OF s1] l0 show ?thesis by simp
      next
        case False
        with pv sk arr s1 obtain xs where "parse_elements r0 = Some (xs, r)"
          by (subst (asm) parse_value.simps) auto
        with less.hyps [OF l0] have "length r < length r0" by blast
        with l0 show ?thesis by simp
      qed
    next
      case obj
      with pv sk obtain c1 r1 where s1: "skip_ws r0 = c1 # r1"
        by (subst (asm) parse_value.simps) (auto split: list.splits)
      show ?thesis
      proof (cases "c1 = CHR ''}''")
        case True
        with pv sk obj s1 have "r = r1" by (subst (asm) parse_value.simps) simp
        with skip_ws_shorter [OF s1] l0 show ?thesis by simp
      next
        case False
        with pv sk obj s1 obtain ms where "parse_members r0 = Some (ms, r)"
          by (subst (asm) parse_value.simps) auto
        with less.hyps [OF l0] have "length r < length r0" by blast
        with l0 show ?thesis by simp
      qed
    next
      case leaf
      with pv sk have "parse_leaf c r0 = Some (v, r)"
        by (subst (asm) parse_value.simps) simp
      from parse_leaf_shorter [OF this] l0 show ?thesis by simp
    qed
  qed
  have E: "length r < length s" if pe: "parse_elements s = Some (xs, r)" for xs r
  proof -
    from pe obtain v r' where pv: "parse_value s = Some (v, r')"
      by (subst (asm) parse_elements.simps) (auto split: option.splits)
    note lv = V [OF pv]
    from pe pv obtain c r1 where sk: "skip_ws r' = c # r1"
      by (subst (asm) parse_elements.simps) (auto split: list.splits)
    note l1 = skip_ws_shorter [OF sk]
    show ?thesis
    proof (cases "c = CHR '',''")
      case True
      with pe pv sk obtain ys where "parse_elements r1 = Some (ys, r)"
        by (subst (asm) parse_elements.simps) (auto split: if_splits)
      moreover have "length r1 < length s" using l1 lv by simp
      ultimately have "length r < length r1" using less.hyps by blast
      with l1 lv show ?thesis by simp
    next
      case False
      with pe pv sk have "r = r1"
        by (subst (asm) parse_elements.simps) (auto split: if_splits)
      with l1 lv show ?thesis by simp
    qed
  qed
  have M: "length r < length s" if pm: "parse_members s = Some (ms, r)" for ms r
  proof -
    from pm obtain k r2 where pk: "parse_key s = Some (k, r2)"
      by (subst (asm) parse_members.simps) (auto split: option.splits)
    note lk = parse_key_shorter [OF pk]
    from pm pk lk obtain v r3 where pv: "parse_value r2 = Some (v, r3)"
      by (subst (asm) parse_members.simps) (auto split: option.splits)
    from less.hyps [OF lk] pv have l3: "length r3 < length r2" by blast
    from pm pk lk pv obtain d r4 where sk: "skip_ws r3 = d # r4"
      by (subst (asm) parse_members.simps) (auto split: list.splits)
    note l4 = skip_ws_shorter [OF sk]
    show ?thesis
    proof (cases "d = CHR '',''")
      case True
      with pm pk lk pv sk obtain ys where "parse_members r4 = Some (ys, r)"
        by (subst (asm) parse_members.simps) (auto split: if_splits)
      moreover have "length r4 < length s" using l4 l3 lk by simp
      ultimately have "length r < length r4" using less.hyps by blast
      with l4 l3 lk show ?thesis by simp
    next
      case False
      with pm pk lk pv sk have "r = r4"
        by (subst (asm) parse_members.simps) (auto split: if_splits)
      with l4 l3 lk show ?thesis by simp
    qed
  qed
  from V E M show ?case by blast
qed

text \<open>The guards of the recursion never fail.\<close>

lemma parse_elements_unguarded:
  "parse_elements s =
     (case parse_value s of
        None \<Rightarrow> None
      | Some (v, r) \<Rightarrow>
          (case skip_ws r of
             [] \<Rightarrow> None
           | c # r1 \<Rightarrow>
               if c = CHR '','' then map_option (apfst ((#) v)) (parse_elements r1)
               else if c = CHR '']'' then Some ([v], r1)
               else None))"
proof (cases "parse_value s")
  case None
  then show ?thesis by (subst parse_elements.simps) simp
next
  case (Some a)
  obtain v r where a: "a = (v, r)" by (cases a)
  with Some parse_shorter_all [of s] have l: "length r < length s" by blast
  show ?thesis
  proof (cases "skip_ws r")
    case Nil
    with Some a show ?thesis by (subst parse_elements.simps) simp
  next
    case (Cons c r1)
    from skip_ws_shorter [OF Cons] l have "length r1 < length s" by simp
    with Some a Cons show ?thesis by (subst parse_elements.simps) simp
  qed
qed

lemma parse_members_unguarded:
  "parse_members s =
     (case parse_key s of
        None \<Rightarrow> None
      | Some (k, r2) \<Rightarrow>
          (case parse_value r2 of
             None \<Rightarrow> None
           | Some (v, r3) \<Rightarrow>
               (case skip_ws r3 of
                  [] \<Rightarrow> None
                | d # r4 \<Rightarrow>
                    if d = CHR '','' then map_option (apfst ((#) (k, v))) (parse_members r4)
                    else if d = CHR ''}'' then Some ([(k, v)], r4)
                    else None)))"
proof (cases "parse_key s")
  case None
  then show ?thesis by (subst parse_members.simps) simp
next
  case (Some a)
  obtain k r2 where a: "a = (k, r2)" by (cases a)
  from parse_key_shorter Some a have lk: "length r2 < length s" by blast
  show ?thesis
  proof (cases "parse_value r2")
    case None
    with Some a lk show ?thesis by (subst parse_members.simps) simp
  next
    case pv: (Some b)
    obtain v r3 where b: "b = (v, r3)" by (cases b)
    with pv parse_shorter_all [of r2] have l3: "length r3 < length r2" by blast
    show ?thesis
    proof (cases "skip_ws r3")
      case Nil
      with Some a lk pv b show ?thesis by (subst parse_members.simps) simp
    next
      case (Cons d r4)
      from skip_ws_shorter [OF Cons] l3 lk have "length r4 < length s" by simp
      with Some a lk pv b Cons show ?thesis by (subst parse_members.simps) simp
    qed
  qed
qed

section \<open>Payloads through the default codec\<close>

lemma encode_payload_expiresAt:
  "js_get (encode_payload v tsec now) ''expiresAt'' =
     (case tsec of None \<Rightarrow> JUndefined
      | Some t \<Rightarrow> if 0 < t then JNum (now + t * 1000) else JUndefined)"
  by (simp add: encode_payload_def split: option.splits)

lemma encode_payload_has_expiresAt:
  "js_has (encode_payload v tsec now) ''expiresAt'' = (\<exists>t. tsec = Some t \<and> 0 < t)"
  by (auto simp: encode_payload_def split: option.splits)

lemma json_text_payload_nonempty: "json_text (encode_payload v tsec now) \<noteq> []"
  by (simp add: encode_payload_def split: option.splits)

lemma encode_payload_cases:
  obtains (expiring) t where "tsec = Some t" "0 < t"
      "encode_payload v tsec now = JObj [(''value'', v), (''expiresAt'', JNum (now + t * 1000))]"
    | (lasting) "\<not> (\<exists>t. tsec = Some t \<and> 0 < t)" "encode_payload v tsec now = JObj [(''value'', v)]"
  by (cases tsec) (auto simp: encode_payload_def)

lemma payload_roundtrip:
  assumes "serializable v"
  shows "\<exists>p. JSON_parse (json_text (encode_payload v tsec now)) = Inr p \<and> truthy p
            \<and> js_get p ''value'' = v
            \<and> js_get p ''expiresAt'' = js_get (encode_payload v tsec now) ''expiresAt''
            \<and> js_has p ''expiresAt'' = js_has (encode_payload v tsec now) ''expiresAt''"
proof (cases "v = JUndefined")
  case True
  show ?thesis
  proof (cases rule: encode_payload_cases [where tsec = tsec and v = v and now = now])
    case (expiring t)
    let ?q = "JObj [(''expiresAt'', JNum (now + t * 1000))]"
    have "json_text (encode_payload v tsec now) = json_text ?q" using True expiring by simp
    moreover have "JSON_parse (json_text ?q) = Inr ?q" by (rule JSON_parse_stringify) simp
    ultimately have "JSON_parse (json_text (encode_payload v tsec now)) = Inr ?q" by simp
    then show ?thesis using True expiring by simp
  next
    case lasting
    let ?q = "JObj []"
    have "json_text (encode_payload v tsec now) = json_text ?q" using True lasting by simp
    moreover have "JSON_parse (json_text ?q) = Inr ?q" by (rule JSON_parse_stringify) simp
    ultimately have "JSON_parse (json_text (encode_payload v tsec now)) = Inr ?q" by simp
    then show ?thesis using True lasting by simp
  qed
next
  case False
  with assms have "json_wf v" by (simp add: serializable_def)
  then have "json_wf (encode_payload v tsec now)"
    by (simp add: encode_payload_def split: option.splits)
  then have "JSON_parse (json_text (encode_payload v tsec now)) = Inr (encode_payload v tsec now)"
    by (rule JSON_parse_stringify)
  moreover have "js_get (encode_payload v tsec now) ''value'' = v" "truthy (encode_payload v tsec now)"
    by (simp_all add: encode_payload_def split: option.splits)
  ultimately show ?thesis by blast
qed

lemma JSON_stringify_payload:
  "JSON_stringify (encode_payload v tsec now) = Inr (json_text (encode_payload v tsec now))"
  by (simp add: JSON_stringify_def encode_payload_def split: option.splits)

lemma isExpired_number:
  "truthy p \<Longrightarrow> js_get p ''expiresAt'' = JNum e \<Longrightarrow> isExpired conv p t = (e \<noteq> 0 \<and> e \<le> t)"
  by (simp add: isExpired_def)

lemma isExpired_absent:
  "js_get p ''expiresAt'' = JUndefined \<Longrightarrow> isExpired conv p t = False"
  by (simp add: isExpired_def)



section \<open>The operations on the in-memory backend\<close>

lemma get_store_Memory:
  "get_store conv s key now (Memory m) =
     (let sk = makeKey (namespace s) key;
          payload = decode (map_of m sk) (deserializer s)
      in if isExpired conv payload now then
           (Inr JNull, Memory (AList.delete sk m),
            s\<lparr>trackedKeys := tracked_delete sk (trackedKeys s)\<rparr>)
         else if \<not> truthy payload then
           (Inr JNull, Memory m, s\<lparr>trackedKeys := tracked_delete sk (trackedKeys s)\<rparr>)
         else
           (Inr (js_get payload ''value''), Memory m,
            s\<lparr>trackedKeys := tracked_add sk (trackedKeys s)\<rparr>))"
  by (simp add: get_store_def MemoryStorage_getItem_def MemoryStorage_removeItem_def Let_def)

lemma set_store_Memory:
  "set_store s key v so now (Memory m) =
     (case serializer s (encode_payload v (effective_ttl so (defaultTTL s)) now) of
        Inl e \<Rightarrow> (Some e, Memory m, s)
      | Inr text \<Rightarrow>
          (None, Memory (AList.update (makeKey (namespace s) key) text m),
           s\<lparr>trackedKeys := tracked_add (makeKey (namespace s) key) (trackedKeys s)\<rparr>))"
  by (simp add: set_store_def encode_def MemoryStorage_setItem_def Let_def split: sum.splits)


lemma get_store_Memory_cong:
  "map_of m (makeKey (namespace s) k) = map_of m' (makeKey (namespace s) k)
     \<Longrightarrow> fst (get_store conv s k t (Memory m :: 's storage))
         = fst (get_store conv s k t (Memory m' :: 's storage))"
  by (simp add: get_store_Memory Let_def)

lemma remove_each_Memory:
  "remove_each (Memory m :: 's storage) ks = (None, Memory (filter (\<lambda>kv. fst kv \<notin> set ks) m))"
proof (induction ks arbitrary: m)
  case Nil
  then show ?case by simp
next
  case (Cons k ks)
  have "filter (\<lambda>kv. fst kv \<notin> set ks) (AList.delete k m) = filter (\<lambda>kv. fst kv \<notin> set (k # ks)) m"
    by (induction m) auto
  then show ?case by (simp add: Cons.IH MemoryStorage_removeItem_def)
qed

lemma scan_keys_Memory:
  "i \<le> length m \<Longrightarrow>
   scan_keys ns (Memory m :: 's storage) (\<lambda>index. Inr (MemoryStorage_key index m)) i acc
     = Inr (acc @ filter (in_namespace ns) (drop i (map fst m)))"
proof (induction "length m - i" arbitrary: i acc)
  case 0
  then show ?case
    by (subst scan_keys.simps) (simp add: MemoryStorage_length_def)
next
  case (Suc d)
  then have lt: "i < length m" by simp
  then have dr: "drop i (map fst m) = fst (m ! i) # drop (Suc i) (map fst m)"
    by (simp add: Cons_nth_drop_Suc [symmetric])
  have "Suc i \<le> length m" "d = length m - Suc i" using Suc(2) lt by simp_all
  from Suc(1) [OF this(2) this(1)] show ?case using lt
    by (subst scan_keys.simps)
      (simp add: MemoryStorage_length_def MemoryStorage_key_def dr in_namespace_def)
qed

lemma clear_store_Memory:
  "clear_store s (Memory m :: 's storage) =
     (None, Memory (filter (\<lambda>kv. \<not> in_namespace (namespace s) (fst kv)) m), s)"
proof -
  have "filter (\<lambda>kv. fst kv \<notin> set (filter (in_namespace (namespace s)) (map fst m))) m
          = filter (\<lambda>kv. \<not> in_namespace (namespace s) (fst kv)) m"
    by (rule filter_cong) auto
  then show ?thesis
    by (simp add: clear_store_def scan_keys_Memory remove_each_Memory)
qed

lemma remove_each_Keyless:
  "remove_each (KeylessStorage m) ks = (None, KeylessStorage (filter (\<lambda>kv. fst kv \<notin> set ks) m))"
proof (induction ks arbitrary: m)
  case Nil
  then show ?case by simp
next
  case (Cons k ks)
  have "filter (\<lambda>kv. fst kv \<notin> set ks) (AList.delete k m) = filter (\<lambda>kv. fst kv \<notin> set (k # ks)) m"
    by (induction m) auto
  moreover have "storage_removeItem (KeylessStorage m) k = (None, KeylessStorage (AList.delete k m))"
    by (simp add: KeylessStorage_def MemoryStorage_removeItem_def)
  ultimately show ?case by (simp add: Cons.IH)
qed

lemma clear_store_Keyless:
  "clear_store s (KeylessStorage m) =
     (None, KeylessStorage (filter (\<lambda>kv. fst kv \<notin> set (trackedKeys s)) m), s\<lparr>trackedKeys := []\<rparr>)"
proof -
  have "storage_key (KeylessStorage m) = None" by (simp add: KeylessStorage_def)
  then show ?thesis by (simp add: clear_store_def remove_each_Keyless)
qed

lemma map_of_filter_keys:
  "map_of (filter (\<lambda>kv. \<not> P (fst kv)) m) k = (if P k then None else map_of m k)"
  by (induction m) auto

section \<open>Tracked keys\<close>

lemma in_namespace_makeKey: "in_namespace ns (makeKey ns key)"
  by (simp add: in_namespace_def makeKey_def)

lemma tracked_in_namespace_kept:
  "tracked_in_namespace (created_store (createStore options g))"
  "tracked_in_namespace s \<Longrightarrow> tracked_in_namespace (snd (snd (get_store conv s key now st)))"
  "tracked_in_namespace s \<Longrightarrow> tracked_in_namespace (snd (snd (set_store s key v so now st)))"
  "tracked_in_namespace s \<Longrightarrow> tracked_in_namespace (snd (snd (remove_store s key st)))"
  "tracked_in_namespace s \<Longrightarrow> tracked_in_namespace (snd (snd (clear_store s st)))"
proof -
  show "tracked_in_namespace (created_store (createStore options g))"
    by (simp add: tracked_in_namespace_def createStore_def Let_def)
  assume a: "tracked_in_namespace s"
  show "tracked_in_namespace (snd (snd (get_store conv s key now st)))"
    using a in_namespace_makeKey [of "namespace s" key]
    by (auto simp: tracked_in_namespace_def get_store_def Let_def tracked_add_def
        tracked_delete_def split: sum.splits prod.splits option.splits)
  show "tracked_in_namespace (snd (snd (set_store s key v so now st)))"
    using a in_namespace_makeKey [of "namespace s" key]
    by (auto simp: tracked_in_namespace_def set_store_def Let_def tracked_add_def
        split: sum.splits prod.splits option.splits)
  show "tracked_in_namespace (snd (snd (remove_store s key st)))"
    using a
    by (auto simp: tracked_in_namespace_def remove_store_def Let_def tracked_delete_def
        split: prod.splits option.splits)
  show "tracked_in_namespace (snd (snd (clear_store s st)))"
    using a
    by (auto simp: tracked_in_namespace_def clear_store_def
        split: sum.splits prod.splits option.splits)
qed

section \<open>Reading back what was written\<close>


lemma set_get_default_codec:
  assumes ser: "serializable v"
    and codec: "serializer s = JSON_stringify" "deserializer s = JSON_parse"
  obtains st1 s1 where "set_store s k v so tw (Memory m) = (None, st1, s1)"
    and "st1 = Memory (AList.update (makeKey (namespace s) k)
                 (json_text (encode_payload v (effective_ttl so (defaultTTL s)) tw)) m)"
    and "\<And>conv t. fst (get_store conv s1 k t st1) =
           (if \<exists>T. effective_ttl so (defaultTTL s) = Some T \<and> 0 < T
                  \<and> tw + T * 1000 \<noteq> 0 \<and> tw + T * 1000 \<le> t
            then Inr JNull else Inr v)"
proof -
  let ?eff = "effective_ttl so (defaultTTL s)"
  let ?sk = "makeKey (namespace s) k"
  let ?text = "json_text (encode_payload v ?eff tw)"
  let ?st1 = "Memory (AList.update ?sk ?text m)"
  let ?s1 = "s\<lparr>trackedKeys := tracked_add ?sk (trackedKeys s)\<rparr>"
  obtain p where p: "JSON_parse ?text = Inr p" "truthy p" "js_get p ''value'' = v"
    "js_get p ''expiresAt'' = js_get (encode_payload v ?eff tw) ''expiresAt''"
    using payload_roundtrip [OF ser, of ?eff tw] by blast
  have set: "set_store s k v so tw (Memory m) = (None, ?st1, ?s1)"
    by (simp add: set_store_Memory codec JSON_stringify_payload)
  have dec: "decode (map_of (AList.update ?sk ?text m) ?sk) (deserializer s) = p"
    by (simp add: decode_def update_conv' codec p json_text_payload_nonempty)
  have get: "fst (get_store conv ?s1 k t ?st1) =
           (if \<exists>T. ?eff = Some T \<and> 0 < T \<and> tw + T * 1000 \<noteq> 0 \<and> tw + T * 1000 \<le> t
            then Inr JNull else Inr v)" for conv t
  proof -
    have ie: "isExpired conv p t =
        (\<exists>T. ?eff = Some T \<and> 0 < T \<and> tw + T * 1000 \<noteq> 0 \<and> tw + T * 1000 \<le> t)"
    proof (cases "\<exists>T. ?eff = Some T \<and> 0 < T")
      case True
      then obtain T where T: "?eff = Some T" "0 < T" by blast
      then have "js_get p ''expiresAt'' = JNum (tw + T * 1000)"
        by (simp add: p encode_payload_expiresAt)
      then have "isExpired conv p t = (tw + T * 1000 \<noteq> 0 \<and> tw + T * 1000 \<le> t)"
        using p(2) by (rule isExpired_number [rotated])
      then show ?thesis using T by simp
    next
      case False
      then have "js_get p ''expiresAt'' = JUndefined"
        by (auto simp: p encode_payload_expiresAt split: option.splits)
      then have "isExpired conv p t = False" by (rule isExpired_absent)
      then show ?thesis using False by blast
    qed
    show ?thesis
      by (auto simp: get_store_Memory Let_def dec ie p)
  qed
  show ?thesis using that [OF set refl get] .
qed

lemma two_stores_set_get:
  assumes "serializable v1" and "serializer s1 = JSON_stringify" and "deserializer s1 = JSON_parse"
    and "serializable v2" and "serializer s2 = JSON_stringify" and "deserializer s2 = JSON_parse"
    and ne: "makeKey (namespace s1) k1 \<noteq> makeKey (namespace s2) k2"
  shows "\<exists>st1 s1' st2 s2'.
           set_store s1 k1 v1 so1 t (Memory m :: 's storage) = (None, st1, s1')
         \<and> set_store s2 k2 v2 so2 t st1 = (None, st2, s2')
         \<and> fst (get_store conv s1' k1 t st2) = Inr v1
         \<and> fst (get_store conv s2' k2 t st2) = Inr v2"
proof -
  let ?sk1 = "makeKey (namespace s1) k1" and ?sk2 = "makeKey (namespace s2) k2"
  let ?t1 = "json_text (encode_payload v1 (effective_ttl so1 (defaultTTL s1)) t)"
  let ?t2 = "json_text (encode_payload v2 (effective_ttl so2 (defaultTTL s2)) t)"
  let ?m1 = "AList.update ?sk1 ?t1 m"
  obtain st1 s1' where set1: "set_store s1 k1 v1 so1 t (Memory m :: 's storage) = (None, st1, s1')"
    and st1: "st1 = Memory ?m1"
    and get1: "\<And>conv t'. fst (get_store conv s1' k1 t' st1) =
           (if \<exists>T. effective_ttl so1 (defaultTTL s1) = Some T \<and> 0 < T
                  \<and> t + T * 1000 \<noteq> 0 \<and> t + T * 1000 \<le> t'
            then Inr JNull else Inr v1)"
    using set_get_default_codec [OF assms(1-3), where k = k1 and so = so1 and tw = t and m = m]
    by metis
  obtain st2 s2' where set2: "set_store s2 k2 v2 so2 t (Memory ?m1 :: 's storage) = (None, st2, s2')"
    and st2: "st2 = Memory (AList.update ?sk2 ?t2 ?m1)"
    and get2: "\<And>conv t'. fst (get_store conv s2' k2 t' st2) =
           (if \<exists>T. effective_ttl so2 (defaultTTL s2) = Some T \<and> 0 < T
                  \<and> t + T * 1000 \<noteq> 0 \<and> t + T * 1000 \<le> t'
            then Inr JNull else Inr v2)"
    using set_get_default_codec [OF assms(4-6), where k = k2 and so = so2 and tw = t and m = ?m1]
    by metis
  have ns: "namespace s1' = namespace s1"
    using set1 by (auto simp: set_store_Memory split: sum.splits)
  have "map_of (AList.update ?sk2 ?t2 ?m1) ?sk1 = map_of ?m1 ?sk1"
    using ne by (simp add: update_conv')
  then have "fst (get_store conv s1' k1 t st2) = fst (get_store conv s1' k1 t st1)"
    unfolding st1 st2 by (intro get_store_Memory_cong) (simp add: ns)
  also have "\<dots> = Inr v1" by (auto simp: get1)
  finally have g1: "fst (get_store conv s1' k1 t st2) = Inr v1" .
  have g2: "fst (get_store conv s2' k2 t st2) = Inr v2" by (auto simp: get2)
  show ?thesis using set1 set2 g1 g2 unfolding st1 by auto
qed

section \<open>The usability probe\<close>

lemma isStorageUsable_throws:
  "fst (isStorageUsable c) \<longleftrightarrow>
     fst (storage_setItem c TEST_KEY ''1'') = None
     \<and> fst (storage_removeItem (snd (storage_setItem c TEST_KEY ''1'')) TEST_KEY) = None"
  by (auto simp: isStorageUsable_def split: prod.splits option.splits)

lemma resolveStorage_fallback:
  "usedMemoryFallback (resolveStorage candidate g)
     \<longleftrightarrow> \<not> fst (isStorageUsable (detectStorage candidate g))"
  by (simp add: resolveStorage_def Let_def split: prod.splits)

lemma resolveStorage_unusable:
  "\<not> fst (isStorageUsable (detectStorage candidate g))
     \<Longrightarrow> resolved_storage (resolveStorage candidate g) = Memory []"
  by (cases "isStorageUsable (detectStorage candidate g)")
    (simp add: resolveStorage_def Let_def createMemoryStorage_def)

section \<open>The fixtures\<close>

lemma memory_store_fields:
  "serializer (memory_store ns d) = JSON_stringify"
  "deserializer (memory_store ns d) = JSON_parse"
  "defaultTTL (memory_store ns d) = d"
  "namespace (memory_store ns d) = normalizeNamespace (Some ns)"
  "trackedKeys (memory_store ns d) = []"
  by (simp_all add: memory_store_def createStore_def Let_def)

lemma memory_store_key:
  "makeKey (namespace (memory_store ''app'' d)) ''k'' = ''app:k''"
  "makeKey (normalizeNamespace (Some ''app'')) ''k'' = ''app:k''"
  by (simp_all add: memory_store_fields normalizeNamespace_def strip_trailing_colons_def
      makeKey_def)

section \<open>Round trip\<close>



section \<open>Expiry\<close>



section \<open>Corrupted entries\<close>




section \<open>Namespaces\<close>

text \<open>
  C4. Two stores with the namespaces \<^verbatim>\<open>a\<close> and \<^verbatim>\<open>b\<close> over one in-memory backend: after
  both have set the key \<^verbatim>\<open>x\<close>, in either order, each reads its own value; and \<^verbatim>\<open>clear\<close>
  on the first store returns normally, removes every key with the prefix \<^verbatim>\<open>a:\<close> and
  leaves every other entry as it is, the keys of the second store among them. On a
  backend without \<^verbatim>\<open>key\<close>, \<^verbatim>\<open>clear\<close> removes the tracked keys of the store, and again
  leaves every entry without the prefix \<^verbatim>\<open>a:\<close> as it is.
\<close>

theorem namespace_isolation:
  assumes "serializable va" and "serializer sa = JSON_stringify" and "deserializer sa = JSON_parse"
    and "serializable vb" and "serializer sb = JSON_stringify" and "deserializer sb = JSON_parse"
    and "namespace sa = ''a''" and "namespace sb = ''b''"
  shows "(\<exists>st1 sa1 st2 sb1.
            set_store sa ''x'' va soa t (Memory m :: 's storage) = (None, st1, sa1)
          \<and> set_store sb ''x'' vb sob t st1 = (None, st2, sb1)
          \<and> fst (get_store conv sa1 ''x'' t st2) = Inr va
          \<and> fst (get_store conv sb1 ''x'' t st2) = Inr vb)
       \<and> (\<exists>st1 sb1 st2 sa1.
            set_store sb ''x'' vb sob t (Memory m :: 's storage) = (None, st1, sb1)
          \<and> set_store sa ''x'' va soa t st1 = (None, st2, sa1)
          \<and> fst (get_store conv sa1 ''x'' t st2) = Inr va
          \<and> fst (get_store conv sb1 ''x'' t st2) = Inr vb)
       \<and> (\<exists>m'. clear_store sa (Memory m :: 's storage) = (None, Memory m', sa)
          \<and> (\<forall>k. map_of m' (makeKey (namespace sb) k) = map_of m (makeKey (namespace sb) k))
          \<and> (\<forall>kk. \<not> prefix ''a:'' kk \<longrightarrow> map_of m' kk = map_of m kk)
          \<and> (\<forall>kk. prefix ''a:'' kk \<longrightarrow> map_of m' kk = None))
       \<and> (tracked_in_namespace sa \<longrightarrow>
            (\<exists>m'. clear_store sa (KeylessStorage m) = (None, KeylessStorage m', sa\<lparr>trackedKeys := []\<rparr>)
               \<and> (\<forall>k. map_of m' (makeKey (namespace sb) k) = map_of m (makeKey (namespace sb) k))
               \<and> (\<forall>kk. \<not> prefix ''a:'' kk \<longrightarrow> map_of m' kk = map_of m kk)))"
proof -
  have ne: "makeKey (namespace sa) ''x'' \<noteq> makeKey (namespace sb) ''x''"
    "makeKey (namespace sb) ''x'' \<noteq> makeKey (namespace sa) ''x''"
    by (simp_all add: assms(7,8) makeKey_def)
  have ab: "\<exists>st1 sa1 st2 sb1.
            set_store sa ''x'' va soa t (Memory m :: 's storage) = (None, st1, sa1)
          \<and> set_store sb ''x'' vb sob t st1 = (None, st2, sb1)
          \<and> fst (get_store conv sa1 ''x'' t st2) = Inr va
          \<and> fst (get_store conv sb1 ''x'' t st2) = Inr vb"
    by (rule two_stores_set_get [OF assms(1-6) ne(1)])
  have "\<exists>st1 sb1 st2 sa1.
            set_store sb ''x'' vb sob t (Memory m :: 's storage) = (None, st1, sb1)
          \<and> set_store sa ''x'' va soa t st1 = (None, st2, sa1)
          \<and> fst (get_store conv sb1 ''x'' t st2) = Inr vb
          \<and> fst (get_store conv sa1 ''x'' t st2) = Inr va"
    by (rule two_stores_set_get [OF assms(4-6) assms(1-3) ne(2)])
  then have ba: "\<exists>st1 sb1 st2 sa1.
            set_store sb ''x'' vb sob t (Memory m :: 's storage) = (None, st1, sb1)
          \<and> set_store sa ''x'' va soa t st1 = (None, st2, sa1)
          \<and> fst (get_store conv sa1 ''x'' t st2) = Inr va
          \<and> fst (get_store conv sb1 ''x'' t st2) = Inr vb"
    by blast
  let ?m' = "filter (\<lambda>kv. \<not> in_namespace (namespace sa) (fst kv)) m"
  have inn: "in_namespace ''a'' kk = prefix ''a:'' kk" for kk
    by (auto simp: in_namespace_def)
  have "clear_store sa (Memory m :: 's storage) = (None, Memory ?m', sa)"
    by (rule clear_store_Memory)
  moreover have "\<forall>k. map_of ?m' (makeKey (namespace sb) k) = map_of m (makeKey (namespace sb) k)"
    by (simp add: map_of_filter_keys assms(7,8) inn makeKey_def)
  moreover have "\<forall>kk. \<not> prefix ''a:'' kk \<longrightarrow> map_of ?m' kk = map_of m kk"
    by (simp add: map_of_filter_keys assms(7) inn)
  moreover have "\<forall>kk. prefix ''a:'' kk \<longrightarrow> map_of ?m' kk = None"
    by (simp add: map_of_filter_keys assms(7) inn)
  ultimately have cl: "\<exists>m'. clear_store sa (Memory m :: 's storage) = (None, Memory m', sa)
          \<and> (\<forall>k. map_of m' (makeKey (namespace sb) k) = map_of m (makeKey (namespace sb) k))
          \<and> (\<forall>kk. \<not> prefix ''a:'' kk \<longrightarrow> map_of m' kk = map_of m kk)
          \<and> (\<forall>kk. prefix ''a:'' kk \<longrightarrow> map_of m' kk = None)"
    by blast
  have kl: "\<exists>m'. clear_store sa (KeylessStorage m) = (None, KeylessStorage m', sa\<lparr>trackedKeys := []\<rparr>)
               \<and> (\<forall>k. map_of m' (makeKey (namespace sb) k) = map_of m (makeKey (namespace sb) k))
               \<and> (\<forall>kk. \<not> prefix ''a:'' kk \<longrightarrow> map_of m' kk = map_of m kk)"
    if tr: "tracked_in_namespace sa"
  proof -
    let ?k = "filter (\<lambda>kv. \<not> (fst kv \<in> set (trackedKeys sa))) m"
    have out: "kk \<notin> set (trackedKeys sa)" if "\<not> prefix ''a:'' kk" for kk
      using tr that by (auto simp: tracked_in_namespace_def assms(7) inn)
    have "clear_store sa (KeylessStorage m) = (None, KeylessStorage ?k, sa\<lparr>trackedKeys := []\<rparr>)"
      by (simp add: clear_store_Keyless)
    moreover have "\<forall>kk. \<not> prefix ''a:'' kk \<longrightarrow> map_of ?k kk = map_of m kk"
      using out by (auto simp: map_of_filter_keys [where P = "\<lambda>k. k \<in> set (trackedKeys sa)"])
    moreover have "\<forall>k. map_of ?k (makeKey (namespace sb) k) = map_of m (makeKey (namespace sb) k)"
      using out
      by (auto simp: map_of_filter_keys [where P = "\<lambda>k. k \<in> set (trackedKeys sa)"] assms(8)
          makeKey_def)
    ultimately show ?thesis by blast
  qed
  from ab ba cl kl show ?thesis by blast
qed

theorem namespace_isolation_witness:
  "serializable (JStr ''user-token'') \<and> serializable (JStr ''admin-token'')
   \<and> serializer (memory_store ''a'' None) = JSON_stringify
   \<and> deserializer (memory_store ''a'' None) = JSON_parse
   \<and> serializer (memory_store ''b'' None) = JSON_stringify
   \<and> deserializer (memory_store ''b'' None) = JSON_parse
   \<and> namespace (memory_store ''a'' None) = ''a'' \<and> namespace (memory_store ''b'' None) = ''b''
   \<and> (\<exists>st1 sa1 st2 sb1.
          set_store (memory_store ''a'' None) ''x'' (JStr ''user-token'') None 1000
            (Memory [(''misc'', ''x'')] :: unit storage) = (None, st1, sa1)
        \<and> set_store (memory_store ''b'' None) ''x'' (JStr ''admin-token'') None 1000 st1
            = (None, st2, sb1)
        \<and> fst (get_store no_coercion sa1 ''x'' 1000 st2) = Inr (JStr ''user-token'')
        \<and> fst (get_store no_coercion sb1 ''x'' 1000 st2) = Inr (JStr ''admin-token''))
   \<and> (\<exists>m'. clear_store (memory_store ''a'' None)
               (Memory [(''a:x'', ''1''), (''b:x'', ''2''), (''misc'', ''x'')] :: unit storage)
             = (None, Memory m', memory_store ''a'' None)
          \<and> map_of m' ''b:x'' = Some ''2'' \<and> map_of m' ''misc'' = Some ''x''
          \<and> map_of m' ''a:x'' = None)
   \<and> tracked_in_namespace (memory_store ''a'' None)
   \<and> (\<exists>m'. clear_store (memory_store ''a'' None)
               (KeylessStorage [(''a:x'', ''1''), (''b:x'', ''2''), (''misc'', ''x'')])
             = (None, KeylessStorage m', (memory_store ''a'' None)\<lparr>trackedKeys := []\<rparr>)
          \<and> map_of m' ''b:x'' = Some ''2'' \<and> map_of m' ''misc'' = Some ''x'')"
proof -
  note fa = memory_store_fields(1,2) [of "''a''" None]
  note fb = memory_store_fields(1,2) [of "''b''" None]
  have ha: "serializable (JStr ''user-token'')" and hb: "serializable (JStr ''admin-token'')"
    by (simp_all add: serializable_def)
  have na: "namespace (memory_store ''a'' None) = ''a''"
    and nb: "namespace (memory_store ''b'' None) = ''b''"
    by (simp_all add: memory_store_fields normalizeNamespace_def strip_trailing_colons_def)
  note iso = namespace_isolation [OF ha fa hb fb na nb, where conv = no_coercion and t = 1000
      and soa = None and sob = None]
  have one: "\<exists>st1 sa1 st2 sb1.
          set_store (memory_store ''a'' None) ''x'' (JStr ''user-token'') None 1000
            (Memory [(''misc'', ''x'')] :: unit storage) = (None, st1, sa1)
        \<and> set_store (memory_store ''b'' None) ''x'' (JStr ''admin-token'') None 1000 st1
            = (None, st2, sb1)
        \<and> fst (get_store no_coercion sa1 ''x'' 1000 st2) = Inr (JStr ''user-token'')
        \<and> fst (get_store no_coercion sb1 ''x'' 1000 st2) = Inr (JStr ''admin-token'')"
    using iso [where m = "[(''misc'', ''x'')]"] by blast
  let ?m = "[(''a:x'', ''1''), (''b:x'', ''2''), (''misc'', ''x'')]"
  from iso [where m = ?m]
  obtain m' where c: "clear_store (memory_store ''a'' None) (Memory ?m :: unit storage)
             = (None, Memory m', memory_store ''a'' None)"
    and b: "\<forall>k. map_of m' (makeKey (namespace (memory_store ''b'' None)) k)
              = map_of ?m (makeKey (namespace (memory_store ''b'' None)) k)"
    and o: "\<forall>kk. \<not> prefix ''a:'' kk \<longrightarrow> map_of m' kk = map_of ?m kk"
    and a: "\<forall>kk. prefix ''a:'' kk \<longrightarrow> map_of m' kk = None"
    by blast
  from b have "map_of m' (makeKey ''b'' ''x'') = map_of ?m (makeKey ''b'' ''x'')"
    unfolding nb by blast
  then have bx: "map_of m' ''b:x'' = Some ''2''" by (simp add: makeKey_def)
  from o have mx: "map_of m' ''misc'' = Some ''x''" by simp
  from a have ax: "map_of m' ''a:x'' = None" by simp
  from c bx mx ax have two: "\<exists>m'. clear_store (memory_store ''a'' None) (Memory ?m :: unit storage)
             = (None, Memory m', memory_store ''a'' None)
          \<and> map_of m' ''b:x'' = Some ''2'' \<and> map_of m' ''misc'' = Some ''x''
          \<and> map_of m' ''a:x'' = None"
    by blast
  have tr: "tracked_in_namespace (memory_store ''a'' None)"
    by (simp add: tracked_in_namespace_def memory_store_fields)
  from iso [where m = ?m] tr
  obtain k' where ck: "clear_store (memory_store ''a'' None) (KeylessStorage ?m)
             = (None, KeylessStorage k', (memory_store ''a'' None)\<lparr>trackedKeys := []\<rparr>)"
    and bk: "\<forall>k. map_of k' (makeKey (namespace (memory_store ''b'' None)) k)
              = map_of ?m (makeKey (namespace (memory_store ''b'' None)) k)"
    and ok: "\<forall>kk. \<not> prefix ''a:'' kk \<longrightarrow> map_of k' kk = map_of ?m kk"
    by blast
  from bk have "map_of k' (makeKey ''b'' ''x'') = map_of ?m (makeKey ''b'' ''x'')"
    unfolding nb by blast
  then have bx': "map_of k' ''b:x'' = Some ''2''" by (simp add: makeKey_def)
  from ok have mx': "map_of k' ''misc'' = Some ''x''" by simp
  from ck bx' mx' have three: "\<exists>m'. clear_store (memory_store ''a'' None) (KeylessStorage ?m)
             = (None, KeylessStorage m', (memory_store ''a'' None)\<lparr>trackedKeys := []\<rparr>)
          \<and> map_of m' ''b:x'' = Some ''2'' \<and> map_of m' ''misc'' = Some ''x''"
    by blast
  show ?thesis using ha hb fa fb na nb one two tr three by simp
qed

section \<open>Time to live\<close>

text \<open>
  C5. The payload that \<^verbatim>\<open>set\<close> builds and stores has an \<^verbatim>\<open>expiresAt\<close> property exactly when
  the effective TTL (that of the call if given, else the default of the store) is
  positive, and so has the payload read back from the backend; when the effective TTL is
  absent, zero or negative, \<^verbatim>\<open>get\<close> returns the value at every later time.
\<close>

theorem expiresAt_iff_positive_ttl:
  assumes "serializable v" and "serializer s = JSON_stringify" and "deserializer s = JSON_parse"
  shows "\<exists>text p st1 s1.
           set_store s k v so t0 (Memory m :: 's storage) = (None, st1, s1)
         \<and> storage_getItem st1 (makeKey (namespace s) k) = Inr (Some text)
         \<and> serializer s (encode_payload v (effective_ttl so (defaultTTL s)) t0) = Inr text
         \<and> deserializer s text = Inr p
         \<and> (js_has (encode_payload v (effective_ttl so (defaultTTL s)) t0) ''expiresAt''
              \<longleftrightarrow> (\<exists>T. effective_ttl so (defaultTTL s) = Some T \<and> 0 < T))
         \<and> (js_has p ''expiresAt'' \<longleftrightarrow> (\<exists>T. effective_ttl so (defaultTTL s) = Some T \<and> 0 < T))
         \<and> (\<not> (\<exists>T. effective_ttl so (defaultTTL s) = Some T \<and> 0 < T)
              \<longrightarrow> (\<forall>t. fst (get_store conv s1 k t st1) = Inr v))"
proof -
  let ?eff = "effective_ttl so (defaultTTL s)"
  let ?text = "json_text (encode_payload v ?eff t0)"
  obtain st1 s1 where set: "set_store s k v so t0 (Memory m :: 's storage) = (None, st1, s1)"
    and st1: "st1 = Memory (AList.update (makeKey (namespace s) k) ?text m)"
    and get: "\<And>conv t. fst (get_store conv s1 k t st1) =
           (if \<exists>T. ?eff = Some T \<and> 0 < T \<and> t0 + T * 1000 \<noteq> 0 \<and> t0 + T * 1000 \<le> t
            then Inr JNull else Inr v)"
    using set_get_default_codec [OF assms, where k = k and so = so and tw = t0 and m = m]
    by metis
  obtain p where p: "JSON_parse ?text = Inr p"
    "js_has p ''expiresAt'' = js_has (encode_payload v ?eff t0) ''expiresAt''"
    using payload_roundtrip [OF assms(1), of ?eff t0] by blast
  have item: "storage_getItem st1 (makeKey (namespace s) k) = Inr (Some ?text)"
    by (simp add: st1 MemoryStorage_getItem_def update_conv')
  have never: "\<not> (\<exists>T. ?eff = Some T \<and> 0 < T) \<longrightarrow> (\<forall>t. fst (get_store conv s1 k t st1) = Inr v)"
    by (auto simp: get)
  show ?thesis
    using set item never p
    by (simp add: assms(2,3) JSON_stringify_payload encode_payload_has_expiresAt)
qed

theorem expiresAt_iff_positive_ttl_witness:
  "serializable (JStr ''v'')
   \<and> serializer (memory_store ''app'' (Some 5)) = JSON_stringify
   \<and> deserializer (memory_store ''app'' (Some 5)) = JSON_parse
   \<and> effective_ttl (Some \<lparr>ttl = Some 0\<rparr>) (defaultTTL (memory_store ''app'' (Some 5))) = Some 0
   \<and> (\<exists>st1 s1. set_store (memory_store ''app'' (Some 5)) ''k'' (JStr ''v'')
                   (Some \<lparr>ttl = Some 0\<rparr>) 1000 (Memory [] :: unit storage) = (None, st1, s1)
         \<and> storage_getItem st1 (makeKey (namespace (memory_store ''app'' (Some 5))) ''k'')
             = Inr (Some ''{\"value\":\"v\"}'')
         \<and> fst (get_store no_coercion s1 ''k'' 99999999 st1) = Inr (JStr ''v''))"
proof -
  let ?s = "memory_store ''app'' (Some 5)"
  note f = memory_store_fields(1,2) [of "''app''" "Some 5"]
  have h: "serializable (JStr ''v'')" by (simp add: serializable_def)
  have e: "effective_ttl (Some \<lparr>ttl = Some 0\<rparr>) (defaultTTL ?s) = Some 0"
    by (simp add: effective_ttl_def)
  have js: "json_text (encode_payload (JStr ''v'') (Some 0) 1000) = ''{\"value\":\"v\"}''"
    by code_simp
  from expiresAt_iff_positive_ttl [OF h f, where k = "''k''" and so = "Some \<lparr>ttl = Some 0\<rparr>"
      and ?t0.0 = 1000 and m = "[]" and conv = no_coercion]
  obtain stored p and st1 :: "unit storage" and s1 where
    set: "set_store ?s ''k'' (JStr ''v'') (Some \<lparr>ttl = Some 0\<rparr>) 1000 (Memory [] :: unit storage)
           = (None, st1, s1)"
    and item: "storage_getItem st1 (makeKey (namespace ?s) ''k'') = Inr (Some stored)"
    and ser: "serializer ?s (encode_payload (JStr ''v'')
                (effective_ttl (Some \<lparr>ttl = Some 0\<rparr>) (defaultTTL ?s)) 1000) = Inr stored"
    and never: "\<not> (\<exists>T. effective_ttl (Some \<lparr>ttl = Some 0\<rparr>) (defaultTTL ?s) = Some T \<and> 0 < T)
              \<longrightarrow> (\<forall>t. fst (get_store no_coercion s1 ''k'' t st1) = Inr (JStr ''v''))"
    by blast
  from ser have "stored = ''{\"value\":\"v\"}''"
    by (simp add: e f JSON_stringify_payload js)
  moreover from never have "fst (get_store no_coercion s1 ''k'' 99999999 st1) = Inr (JStr ''v'')"
    by (simp add: e)
  ultimately have "\<exists>st1 s1. set_store ?s ''k'' (JStr ''v'')
                   (Some \<lparr>ttl = Some 0\<rparr>) 1000 (Memory [] :: unit storage) = (None, st1, s1)
         \<and> storage_getItem st1 (makeKey (namespace ?s) ''k'') = Inr (Some ''{\"value\":\"v\"}'')
         \<and> fst (get_store no_coercion s1 ''k'' 99999999 st1) = Inr (JStr ''v'')"
    using set item by blast
  then show ?thesis using h f e by simp
qed



section \<open>Lazy deletion\<close>

text \<open>
  C7. As amended. When the payload stored at the key has a number other than zero as its
  \<^verbatim>\<open>expiresAt\<close>, at or before the current time, \<^verbatim>\<open>get\<close> returns null, removes the entry at
  the storage key and no other, and removes the key from the tracked keys. No other
  operation enforces expiry: \<^verbatim>\<open>set\<close> and \<^verbatim>\<open>remove\<close> leave every entry but their own as it
  is, and what \<^verbatim>\<open>clear\<close> removes depends on the keys only.
\<close>

theorem get_deletes_expired_entry:
  "(map_of m (makeKey (namespace s) k) = Some raw \<and> raw \<noteq> [] \<and> deserializer s raw = Inr p
      \<and> truthy p \<and> js_get p ''expiresAt'' = JNum e \<and> e \<noteq> 0 \<and> e \<le> now
     \<longrightarrow> get_store conv s k now (Memory m :: 's storage)
           = (Inr JNull, Memory (AList.delete (makeKey (namespace s) k) m),
              s\<lparr>trackedKeys := tracked_delete (makeKey (namespace s) k) (trackedKeys s)\<rparr>)
         \<and> map_of (AList.delete (makeKey (namespace s) k) m) (makeKey (namespace s) k) = None
         \<and> (\<forall>k'. k' \<noteq> makeKey (namespace s) k
               \<longrightarrow> map_of (AList.delete (makeKey (namespace s) k) m) k' = map_of m k')
         \<and> makeKey (namespace s) k
             \<notin> set (tracked_delete (makeKey (namespace s) k) (trackedKeys s)))
   \<and> (\<forall>k' v so t e' st1 s1. set_store s k' v so t (Memory m :: 's storage) = (e', st1, s1)
         \<longrightarrow> (\<forall>k''. k'' \<noteq> makeKey (namespace s) k'
               \<longrightarrow> storage_getItem st1 k'' = storage_getItem (Memory m :: 's storage) k''))
   \<and> (\<forall>k' e' st1 s1. remove_store s k' (Memory m :: 's storage) = (e', st1, s1)
         \<longrightarrow> (\<forall>k''. k'' \<noteq> makeKey (namespace s) k'
               \<longrightarrow> storage_getItem st1 k'' = storage_getItem (Memory m :: 's storage) k''))
   \<and> clear_store s (Memory m :: 's storage)
       = (None, Memory (filter (\<lambda>kv. \<not> in_namespace (namespace s) (fst kv)) m), s)"
proof (intro conjI impI allI)
  assume a: "map_of m (makeKey (namespace s) k) = Some raw \<and> raw \<noteq> [] \<and> deserializer s raw = Inr p
      \<and> truthy p \<and> js_get p ''expiresAt'' = JNum e \<and> e \<noteq> 0 \<and> e \<le> now"
  then have d: "decode (map_of m (makeKey (namespace s) k)) (deserializer s) = p"
    by (simp add: decode_def)
  from a have "isExpired conv p now" by (simp add: isExpired_number)
  then show "get_store conv s k now (Memory m :: 's storage)
           = (Inr JNull, Memory (AList.delete (makeKey (namespace s) k) m),
              s\<lparr>trackedKeys := tracked_delete (makeKey (namespace s) k) (trackedKeys s)\<rparr>)"
    by (simp add: get_store_Memory Let_def d)
next
  show "map_of (AList.delete (makeKey (namespace s) k) m) (makeKey (namespace s) k) = None"
    by (simp add: delete_conv')
next
  fix k' assume "k' \<noteq> makeKey (namespace s) k"
  then show "map_of (AList.delete (makeKey (namespace s) k) m) k' = map_of m k'"
    by (simp add: delete_conv')
next
  show "makeKey (namespace s) k \<notin> set (tracked_delete (makeKey (namespace s) k) (trackedKeys s))"
    by (simp add: tracked_delete_def)
next
  fix k' v so t e' and st1 :: "'s storage" and s1 k''
  assume "set_store s k' v so t (Memory m :: 's storage) = (e', st1, s1)"
    and "k'' \<noteq> makeKey (namespace s) k'"
  then show "storage_getItem st1 k'' = storage_getItem (Memory m :: 's storage) k''"
    by (auto simp: set_store_Memory MemoryStorage_getItem_def update_conv' split: sum.splits)
next
  fix k' e' and st1 :: "'s storage" and s1 k''
  assume "remove_store s k' (Memory m :: 's storage) = (e', st1, s1)"
    and "k'' \<noteq> makeKey (namespace s) k'"
  then show "storage_getItem st1 k'' = storage_getItem (Memory m :: 's storage) k''"
    by (auto simp: remove_store_def MemoryStorage_getItem_def MemoryStorage_removeItem_def
        delete_conv' Let_def)
next
  show "clear_store s (Memory m :: 's storage)
       = (None, Memory (filter (\<lambda>kv. \<not> in_namespace (namespace s) (fst kv)) m), s)"
    by (rule clear_store_Memory)
qed

theorem get_deletes_expired_entry_witness:
  "map_of [(''app:k'', ''{\"value\":\"v\",\"expiresAt\":500}''), (''app:j'', ''{\"value\":1}''),
           (''misc'', ''x'')]
       (makeKey (namespace (memory_store ''app'' None)) ''k'')
     = Some ''{\"value\":\"v\",\"expiresAt\":500}''
   \<and> deserializer (memory_store ''app'' None) ''{\"value\":\"v\",\"expiresAt\":500}''
       = Inr (JObj [(''value'', JStr ''v''), (''expiresAt'', JNum 500)])
   \<and> (500 :: int) \<le> 1000
   \<and> get_store no_coercion (memory_store ''app'' None) ''k'' 1000
         (Memory [(''app:k'', ''{\"value\":\"v\",\"expiresAt\":500}''), (''app:j'', ''{\"value\":1}''),
                  (''misc'', ''x'')] :: unit storage)
       = (Inr JNull, Memory [(''app:j'', ''{\"value\":1}''), (''misc'', ''x'')],
          (memory_store ''app'' None)\<lparr>trackedKeys := []\<rparr>)"
proof -
  let ?raw = "''{\"value\":\"v\",\"expiresAt\":500}''"
  let ?m = "[(''app:k'', ?raw), (''app:j'', ''{\"value\":1}''), (''misc'', ''x'')]"
  let ?p = "JObj [(''value'', JStr ''v''), (''expiresAt'', JNum 500)]"
  have p: "JSON_parse ?raw = Inr ?p" by code_simp
  have a: "map_of ?m (makeKey (namespace (memory_store ''app'' None)) ''k'') = Some ?raw
      \<and> ?raw \<noteq> [] \<and> deserializer (memory_store ''app'' None) ?raw = Inr ?p
      \<and> truthy ?p \<and> js_get ?p ''expiresAt'' = JNum 500 \<and> (500 :: int) \<noteq> 0 \<and> (500 :: int) \<le> 1000"
    by (simp add: memory_store_key memory_store_fields p)
  from get_deletes_expired_entry
    [of ?m "memory_store ''app'' None" "''k''" ?raw ?p 500 1000 no_coercion] a
  have "get_store no_coercion (memory_store ''app'' None) ''k'' 1000 (Memory ?m :: unit storage)
           = (Inr JNull, Memory (AList.delete (makeKey (namespace (memory_store ''app'' None)) ''k'') ?m),
              (memory_store ''app'' None)
                \<lparr>trackedKeys := tracked_delete (makeKey (namespace (memory_store ''app'' None)) ''k'')
                   (trackedKeys (memory_store ''app'' None))\<rparr>)"
    by blast
  then show ?thesis using a
    by (simp add: memory_store_key memory_store_fields tracked_delete_def)
qed

text \<open>
  The claim as stated fails on a payload whose \<^verbatim>\<open>expiresAt\<close> is 0: the test
  \<^verbatim>\<open>!payload.expiresAt\<close> takes it for a payload without one, and \<^verbatim>\<open>get\<close> returns the
  value and removes nothing.
\<close>

theorem get_keeps_zero_expiresAt_counterexample:
  "map_of [(''app:k'', ''{\"value\":\"v\",\"expiresAt\":0}'')]
       (makeKey (namespace (memory_store ''app'' None)) ''k'')
     = Some ''{\"value\":\"v\",\"expiresAt\":0}''
   \<and> deserializer (memory_store ''app'' None) ''{\"value\":\"v\",\"expiresAt\":0}''
       = Inr (JObj [(''value'', JStr ''v''), (''expiresAt'', JNum 0)])
   \<and> (0 :: int) \<le> 1000
   \<and> get_store no_coercion (memory_store ''app'' None) ''k'' 1000
         (Memory [(''app:k'', ''{\"value\":\"v\",\"expiresAt\":0}'')] :: unit storage)
       = (Inr (JStr ''v''), Memory [(''app:k'', ''{\"value\":\"v\",\"expiresAt\":0}'')],
          (memory_store ''app'' None)\<lparr>trackedKeys := [''app:k'']\<rparr>)"
proof -
  have p: "JSON_parse ''{\"value\":\"v\",\"expiresAt\":0}''
             = Inr (JObj [(''value'', JStr ''v''), (''expiresAt'', JNum 0)])"
    by code_simp
  show ?thesis
    by (simp add: get_store_Memory memory_store_fields memory_store_key
        decode_def p isExpired_def tracked_add_def Let_def)
qed

section \<open>Fallback\<close>

text \<open>
  C8. The fallback is reported exactly when \<^verbatim>\<open>setItem\<close> or \<^verbatim>\<open>removeItem\<close> of the backend
  under test throws in the probe. For a backend given by the caller on which one of them
  throws, the store is built over a fresh in-memory backend and no warning is printed;
  then \<^verbatim>\<open>set\<close> returns normally, the entry is in the in-memory backend, and \<^verbatim>\<open>get\<close> returns
  the value. For a backend given by the caller on which neither throws, no fallback is
  reported and the store is built over that backend, as the probe left it.
\<close>

theorem fallback_to_memory:
  assumes "serializable v"
    and "cr = createStore \<lparr>opt_namespace = ns, opt_defaultTTL = d, opt_storage = Some c,
                           opt_serialize = None, opt_deserialize = None\<rparr> g"
  shows "(usedMemoryFallback (resolveStorage candidate g) \<longleftrightarrow>
            (fst (storage_setItem (detectStorage candidate g) TEST_KEY ''1'') \<noteq> None
             \<or> fst (storage_removeItem
                     (snd (storage_setItem (detectStorage candidate g) TEST_KEY ''1'')) TEST_KEY)
                 \<noteq> None))
       \<and> (fst (storage_setItem (c :: 's storage) TEST_KEY ''1'') \<noteq> None
            \<or> fst (storage_removeItem (snd (storage_setItem c TEST_KEY ''1'')) TEST_KEY) \<noteq> None
          \<longrightarrow> usedMemoryFallback (resolveStorage (Some c) g)
              \<and> created_storage cr = Memory []
              \<and> warnings cr = []
              \<and> (\<exists>text s1. set_store (created_store cr) k v so now (created_storage cr)
                       = (None, Memory [(makeKey (namespace (created_store cr)) k, text)], s1)
                    \<and> fst (get_store conv s1 k now
                             (Memory [(makeKey (namespace (created_store cr)) k, text)]
                                :: 's storage)) = Inr v))
       \<and> (fst (storage_setItem c TEST_KEY ''1'') = None
            \<and> fst (storage_removeItem (snd (storage_setItem c TEST_KEY ''1'')) TEST_KEY) = None
          \<longrightarrow> \<not> usedMemoryFallback (resolveStorage (Some c) g)
              \<and> created_storage cr
                  = snd (storage_removeItem (snd (storage_setItem c TEST_KEY ''1'')) TEST_KEY)
              \<and> warnings cr = [])"
proof (intro conjI impI)
  show "usedMemoryFallback (resolveStorage candidate g) \<longleftrightarrow>
            (fst (storage_setItem (detectStorage candidate g) TEST_KEY ''1'') \<noteq> None
             \<or> fst (storage_removeItem
                     (snd (storage_setItem (detectStorage candidate g) TEST_KEY ''1'')) TEST_KEY)
                 \<noteq> None)"
    by (auto simp: resolveStorage_fallback isStorageUsable_throws)
next
  assume a: "fst (storage_setItem c TEST_KEY ''1'') \<noteq> None
            \<or> fst (storage_removeItem (snd (storage_setItem c TEST_KEY ''1'')) TEST_KEY) \<noteq> None"
  have un: "\<not> fst (isStorageUsable (detectStorage (Some c) g))"
    using a by (simp add: isStorageUsable_throws detectStorage_def)
  show "usedMemoryFallback (resolveStorage (Some c) g)"
    using un by (simp add: resolveStorage_fallback)
  show st: "created_storage cr = Memory []"
    using resolveStorage_unusable [OF un] by (simp add: assms(2) createStore_def Let_def)
  show "warnings cr = []" by (simp add: assms(2) createStore_def Let_def)
  have codec: "serializer (created_store cr) = JSON_stringify"
    "deserializer (created_store cr) = JSON_parse"
    by (simp_all add: assms(2) createStore_def Let_def)
  obtain st1 s1 where set: "set_store (created_store cr) k v so now (Memory [] :: 's storage) = (None, st1, s1)"
    and st1: "st1 = Memory (AList.update (makeKey (namespace (created_store cr)) k)
                 (json_text (encode_payload v (effective_ttl so (defaultTTL (created_store cr))) now)) [])"
    and get: "\<And>conv t. fst (get_store conv s1 k t st1) =
           (if \<exists>T. effective_ttl so (defaultTTL (created_store cr)) = Some T \<and> 0 < T
                  \<and> now + T * 1000 \<noteq> 0 \<and> now + T * 1000 \<le> t
            then Inr JNull else Inr v)"
    using set_get_default_codec [OF assms(1) codec, where k = k and so = so and tw = now and m = "[]"]
    by metis
  have g: "fst (get_store conv s1 k now st1) = Inr v" by (auto simp: get)
  show "\<exists>text s1. set_store (created_store cr) k v so now (created_storage cr)
                       = (None, Memory [(makeKey (namespace (created_store cr)) k, text)], s1)
             \<and> fst (get_store conv s1 k now (Memory [(makeKey (namespace (created_store cr)) k, text)]
                       :: 's storage)) = Inr v"
    using set g unfolding st st1 by auto
next
  assume a: "fst (storage_setItem c TEST_KEY ''1'') = None
            \<and> fst (storage_removeItem (snd (storage_setItem c TEST_KEY ''1'')) TEST_KEY) = None"
  then have us: "fst (isStorageUsable (detectStorage (Some c) g))"
    by (simp add: isStorageUsable_throws detectStorage_def)
  then show "\<not> usedMemoryFallback (resolveStorage (Some c) g)"
    by (simp add: resolveStorage_fallback)
  from a show "created_storage cr
                  = snd (storage_removeItem (snd (storage_setItem c TEST_KEY ''1'')) TEST_KEY)"
    by (auto simp: assms(2) createStore_def resolveStorage_def detectStorage_def
        isStorageUsable_def Let_def split: prod.splits option.splits)
  from us show "warnings cr = []" by (simp add: assms(2) createStore_def Let_def)
qed

theorem fallback_to_memory_witness:
  "fst (storage_setItem BrokenStorage TEST_KEY ''1'') = Some (Thrown ''broken'')
   \<and> serializable (JStr ''v'')
   \<and> usedMemoryFallback (resolveStorage (Some BrokenStorage) None)
   \<and> created_storage
        (createStore \<lparr>opt_namespace = Some ''fallback'', opt_defaultTTL = None,
                      opt_storage = Some BrokenStorage, opt_serialize = None,
                      opt_deserialize = None\<rparr> None) = Memory []
   \<and> (\<exists>text s1.
         set_store
           (created_store
              (createStore \<lparr>opt_namespace = Some ''fallback'', opt_defaultTTL = None,
                            opt_storage = Some BrokenStorage, opt_serialize = None,
                            opt_deserialize = None\<rparr> None))
           ''k'' (JStr ''v'') None 1000 (Memory [] :: unit storage)
         = (None, Memory [(''fallback:k'', text)], s1)
       \<and> fst (get_store no_coercion s1 ''k'' 1000 (Memory [(''fallback:k'', text)] :: unit storage))
           = Inr (JStr ''v''))
   \<and> fst (storage_setItem (Memory [(''a'', ''b'')] :: unit storage) TEST_KEY ''1'') = None
   \<and> fst (storage_removeItem
            (snd (storage_setItem (Memory [(''a'', ''b'')] :: unit storage) TEST_KEY ''1''))
            TEST_KEY) = None
   \<and> usedMemoryFallback (resolveStorage (Some (Memory [(''a'', ''b'')] :: unit storage)) None)
       = False
   \<and> created_storage
        (createStore \<lparr>opt_namespace = Some ''fallback'', opt_defaultTTL = None,
                      opt_storage = Some (Memory [(''a'', ''b'')] :: unit storage),
                      opt_serialize = None, opt_deserialize = None\<rparr> None)
       = Memory [(''a'', ''b'')]"
proof -
  let ?cr = "createStore \<lparr>opt_namespace = Some ''fallback'', opt_defaultTTL = None,
                      opt_storage = Some BrokenStorage, opt_serialize = None,
                      opt_deserialize = None\<rparr> None"
  let ?M = "Memory [(''a'', ''b'')] :: unit storage"
  let ?cm = "createStore \<lparr>opt_namespace = Some ''fallback'', opt_defaultTTL = None,
                      opt_storage = Some ?M, opt_serialize = None, opt_deserialize = None\<rparr> None"
  have b: "fst (storage_setItem BrokenStorage TEST_KEY ''1'') = Some (Thrown ''broken'')"
    by (simp add: BrokenStorage_def)
  then have a: "fst (storage_setItem BrokenStorage TEST_KEY ''1'') \<noteq> None
           \<or> fst (storage_removeItem (snd (storage_setItem BrokenStorage TEST_KEY ''1'')) TEST_KEY) \<noteq> None"
    by simp
  have h: "serializable (JStr ''v'')" by (simp add: serializable_def)
  have k: "makeKey (namespace (created_store ?cr)) ''k'' = ''fallback:k''"
    by (simp add: createStore_def Let_def normalizeNamespace_def strip_trailing_colons_def
        makeKey_def)
  note th = fallback_to_memory [OF h refl, where k = "''k''" and so = None and now = 1000
      and conv = no_coercion and ns = "Some ''fallback''" and d = None and g = None
      and c = BrokenStorage]
  from th a have u: "usedMemoryFallback (resolveStorage (Some BrokenStorage) None)"
    and st: "created_storage ?cr = Memory []" by blast+
  from th a have "\<exists>text s1. set_store (created_store ?cr) ''k'' (JStr ''v'') None 1000 (created_storage ?cr)
                       = (None, Memory [(makeKey (namespace (created_store ?cr)) ''k'', text)], s1)
             \<and> fst (get_store no_coercion s1 ''k'' 1000
                      (Memory [(makeKey (namespace (created_store ?cr)) ''k'', text)] :: unit storage))
                 = Inr (JStr ''v'')"
    by blast
  then have sg: "\<exists>text s1. set_store (created_store ?cr) ''k'' (JStr ''v'') None 1000
                         (Memory [] :: unit storage)
                       = (None, Memory [(''fallback:k'', text)], s1)
             \<and> fst (get_store no_coercion s1 ''k'' 1000
                      (Memory [(''fallback:k'', text)] :: unit storage)) = Inr (JStr ''v'')"
    unfolding k st .
  have m1: "fst (storage_setItem ?M TEST_KEY ''1'') = None"
    and m2: "fst (storage_removeItem (snd (storage_setItem ?M TEST_KEY ''1'')) TEST_KEY) = None"
    and m3: "snd (storage_removeItem (snd (storage_setItem ?M TEST_KEY ''1'')) TEST_KEY) = ?M"
    by (simp_all add: MemoryStorage_setItem_def MemoryStorage_removeItem_def TEST_KEY_def)
  note tm = fallback_to_memory [OF h refl, where k = "''k''" and so = None and now = 1000
      and conv = no_coercion and ns = "Some ''fallback''" and d = None and g = None
      and c = ?M]
  from tm m1 m2 have nu: "\<not> usedMemoryFallback (resolveStorage (Some ?M) None)"
    and cm: "created_storage ?cm
               = snd (storage_removeItem (snd (storage_setItem ?M TEST_KEY ''1'')) TEST_KEY)"
    by blast+
  from cm have cm': "created_storage ?cm = ?M" unfolding m3 .
  show ?thesis using b h u st sg m1 m2 nu cm' by simp
qed

section \<open>Serializer errors\<close>

text \<open>
  C9. When the serializer of the store throws on the payload built from the value,
  \<^verbatim>\<open>set\<close> throws the same error, and leaves the backend and the tracked keys as they
  were.
\<close>

theorem set_propagates_serializer_error:
  "serializer s (encode_payload v (effective_ttl so (defaultTTL s)) now) = Inl e
     \<Longrightarrow> set_store s k v so now st = (Some e, st, s)"
  by (simp add: set_store_def encode_def Let_def)

theorem set_propagates_serializer_error_witness:
  "strict_serializer (encode_payload (JNum 7) (effective_ttl None None) 1000)
     = Inl (Thrown ''TypeError'')
   \<and> set_store ((memory_store ''app'' None)\<lparr>serializer := strict_serializer\<rparr>) ''k'' (JNum 7)
         None 1000 (Memory [(''app:k'', ''old'')] :: unit storage)
       = (Some (Thrown ''TypeError''), Memory [(''app:k'', ''old'')],
          (memory_store ''app'' None)\<lparr>serializer := strict_serializer\<rparr>)"
proof -
  let ?s = "(memory_store ''app'' None)\<lparr>serializer := strict_serializer\<rparr>"
  have a: "serializer ?s (encode_payload (JNum 7) (effective_ttl None (defaultTTL ?s)) 1000)
             = Inl (Thrown ''TypeError'')"
    by (simp add: strict_serializer_def encode_payload_def effective_ttl_def memory_store_fields)
  from set_propagates_serializer_error [OF a]
  have "set_store ?s ''k'' (JNum 7) None 1000 (Memory [(''app:k'', ''old'')] :: unit storage)
          = (Some (Thrown ''TypeError''), Memory [(''app:k'', ''old'')], ?s)" .
  then show ?thesis using a by (simp add: memory_store_fields)
qed

section \<open>Namespace normalization\<close>

lemma strip_trailing_colons_all:
  "set s \<subseteq> {CHR '':''} \<Longrightarrow> strip_trailing_colons s = []"
proof -
  assume "set s \<subseteq> {CHR '':''}"
  then have "\<forall>c \<in> set (rev s). c = CHR '':''" by auto
  then have "dropWhile (\<lambda>c. c = CHR '':'') (rev s) = []" by (simp add: dropWhile_eq_Nil_conv)
  then show ?thesis by (simp add: strip_trailing_colons_def)
qed

text \<open>
  C10. A namespace that is not empty but consists of separator characters only is
  normalized to the empty string, not to the default, so the storage keys of that store
  are a colon followed by the key. The default is substituted only for an absent or an
  empty namespace: any other namespace is normalized to itself without its trailing
  colons.
\<close>

theorem normalizeNamespace_only_separators:
  "(ns \<noteq> [] \<and> set ns \<subseteq> {CHR '':''} \<longrightarrow>
      normalizeNamespace (Some ns) = [] \<and>
      makeKey (normalizeNamespace (Some ns)) key = CHR '':'' # key) \<and>
   (ns \<noteq> [] \<longrightarrow> normalizeNamespace (Some ns) = strip_trailing_colons ns) \<and>
   normalizeNamespace None = ''lsp'' \<and>
   normalizeNamespace (Some []) = ''lsp''"
  by (simp add: normalizeNamespace_def makeKey_def strip_trailing_colons_all)

theorem normalizeNamespace_only_separators_witness:
  "normalizeNamespace (Some '':'') = [] \<and>
   makeKey (normalizeNamespace (Some '':'')) ''user'' = '':user'' \<and>
   normalizeNamespace (Some ''app::'') = ''app''"
  using normalizeNamespace_only_separators [of "'':''" "''user''"]
    normalizeNamespace_only_separators [of "''app::''" "''user''"]
  by (simp add: strip_trailing_colons_def makeKey_def)

end
